theory Spec2Isabelle
  imports Main "HOL-Library.AList"
begin

section \<open>Document model\<close>

text \<open>
  The schema rules work on the document tree of the host editor. A node is a text
  leaf or an element with a tag (document, block or inline; blocks and inlines carry a
  type), a key, a data map and an ordered list of children. Keys are the host's stable
  node identifiers; the host draws them from a global counter, modelled as a natural
  number threaded through every function that creates a node.

  A text leaf has no \<open>type\<close>, no \<open>data\<close> and no \<open>nodes\<close> property: reading
  \<open>.type\<close> yields \<open>undefined\<close> (modelled as \<open>None\<close>), reading a property of the
  missing \<open>.nodes\<close> raises a TypeError (modelled as \<open>Inl TypeError\<close>).
\<close>

type_synonym key = nat

text \<open>
  Modelled from the spec: the module ALIGN (the closed enumeration of alignment tags
  with its DEFAULT member) is not among the source files.
\<close>

datatype align = ADefault | ALeft | ACenter | ARight

text \<open>
  A data value is an alignment vector (a JavaScript array of tags, \<open>None\<close> standing for
  a hole left by an assignment past the end), a nested plain object, or the empty list
  \<open>List()\<close> of the collection library, which the alignment rule takes as the default
  of a missing entry. The \<open>length\<close> property of a vector is its size; a plain object
  has none, and neither has the library's list (it has a \<open>size\<close>).
\<close>

datatype dvalue = Vec "align option list" | Obj "(string \<times> dvalue) list" | EmptyList

type_synonym data = "(string \<times> dvalue) list"

datatype tag = Document | Block string | Inline string

datatype node = Text key string | Elem tag key data "node list"

datatype kind = KDocument | KBlock | KInline | KText

datatype error = TypeError | KeyNotFound key | NotInTable | NotConverged

record opts =
  typeTable :: string
  typeRow :: string
  typeCell :: string

fun key_of :: "node \<Rightarrow> key" where
  "key_of (Text k s) = k"
| "key_of (Elem t k d cs) = k"

fun kind_of :: "node \<Rightarrow> kind" where
  "kind_of (Text k s) = KText"
| "kind_of (Elem Document k d cs) = KDocument"
| "kind_of (Elem (Block ty) k d cs) = KBlock"
| "kind_of (Elem (Inline ty) k d cs) = KInline"

fun type_of :: "node \<Rightarrow> string option" where
  "type_of (Text k s) = None"
| "type_of (Elem Document k d cs) = None"
| "type_of (Elem (Block ty) k d cs) = Some ty"
| "type_of (Elem (Inline ty) k d cs) = Some ty"

text \<open>\<open>node.nodes\<close>: the child list of an element, \<open>undefined\<close> on a text leaf.\<close>

fun nodes_of :: "node \<Rightarrow> node list option" where
  "nodes_of (Text k s) = None"
| "nodes_of (Elem t k d cs) = Some cs"

text \<open>
  The child list where the caller has already established that the node carries a type
  (and so is an element); a text leaf never reaches these call sites.
\<close>

fun children :: "node \<Rightarrow> node list" where
  "children (Text k s) = []"
| "children (Elem t k d cs) = cs"

fun data_of :: "node \<Rightarrow> data" where
  "data_of (Text k s) = []"
| "data_of (Elem t k d cs) = d"

definition isBlock :: "node \<Rightarrow> bool" where
  "isBlock n = (kind_of n = KBlock)"

definition isRow :: "opts \<Rightarrow> node \<Rightarrow> bool" where
  "isRow opts n = (type_of n = Some (typeRow opts))"

definition isCell :: "opts \<Rightarrow> node \<Rightarrow> bool" where
  "isCell opts n = (type_of n = Some (typeCell opts))"

definition isTable :: "opts \<Rightarrow> node \<Rightarrow> bool" where
  "isTable opts n = (type_of n = Some (typeTable opts))"

definition countCells :: "opts \<Rightarrow> node \<Rightarrow> nat" where
  "countCells opts row = length (filter (isCell opts) (children row))"

section \<open>Alignment vectors\<close>

text \<open>
  Modelled from the spec: createAlign is not among the source files. It returns a vector
  of length \<open>width\<close>; positions below the length of \<open>existing\<close> copy its values, the
  remaining positions hold the default tag. An omitted \<open>existing\<close>, or one without a
  length, contributes no position.
\<close>

fun base_entries :: "dvalue option \<Rightarrow> align option list" where
  "base_entries None = []"
| "base_entries (Some (Vec xs)) = xs"
| "base_entries (Some (Obj kvs)) = []"
| "base_entries (Some EmptyList) = []"

definition createAlign :: "nat \<Rightarrow> dvalue option \<Rightarrow> align option list" where
  "createAlign width existing =
     map (\<lambda>i. if i < length (base_entries existing) then base_entries existing ! i
              else Some ADefault) [0..<width]"

text \<open>\<open>value.length\<close>: defined on a vector only, \<open>undefined\<close> otherwise.\<close>

fun length_of :: "dvalue \<Rightarrow> nat option" where
  "length_of (Vec xs) = Some (length xs)"
| "length_of (Obj kvs) = None"
| "length_of EmptyList = None"

text \<open>
  \<open>data.get('align', List())\<close>: the stored value, and the library's empty list when
  the key is absent.
\<close>

definition get_align :: "data \<Rightarrow> dvalue" where
  "get_align d = (case map_of d ''align'' of None \<Rightarrow> EmptyList | Some v \<Rightarrow> v)"

section \<open>Synthesized nodes\<close>

text \<open>
  makeEmptyCell and makeEmptyRow. The text leaf is created first, then the cell, then the
  row, each taking the next key of the host's counter \<open>n\<close>.
\<close>

definition makeEmptyCell :: "opts \<Rightarrow> nat \<Rightarrow> node" where
  "makeEmptyCell opts n = Elem (Block (typeCell opts)) (Suc n) [] [Text n '''']"

definition makeEmptyRow :: "opts \<Rightarrow> nat \<Rightarrow> node" where
  "makeEmptyRow opts n = Elem (Block (typeRow opts)) (Suc (Suc n)) [] [makeEmptyCell opts n]"

section \<open>The rules: match and validate\<close>

datatype rule =
    NoBlocksWithinCell
  | CellsWithinTable
  | RowsWithinTable
  | TablesContainOnlyRows
  | RowsContainRequiredColumns
  | TableContainAlignData

definition makeSchema :: "rule list" where
  "makeSchema =
     [NoBlocksWithinCell, CellsWithinTable, RowsWithinTable,
      TablesContainOnlyRows, RowsContainRequiredColumns, TableContainAlignData]"

record row_issue =
  ri_row :: node
  ri_invalids :: "node list"
  ri_add :: nat

datatype violation =
    NestedBlocks "node list"
  | OrphanCells "node list"
  | OrphanRows "node list"
  | BadChildren "node list" "node list"
  | BadRows "row_issue list"
  | BadAlign dvalue nat

fun match_rule :: "opts \<Rightarrow> rule \<Rightarrow> node \<Rightarrow> bool" where
  "match_rule opts NoBlocksWithinCell n = (kind_of n = KBlock \<and> type_of n = Some (typeCell opts))"
| "match_rule opts CellsWithinTable n =
     ((kind_of n = KDocument \<or> kind_of n = KBlock) \<and> type_of n \<noteq> Some (typeRow opts))"
| "match_rule opts RowsWithinTable n =
     ((kind_of n = KDocument \<or> kind_of n = KBlock) \<and> type_of n \<noteq> Some (typeTable opts))"
| "match_rule opts TablesContainOnlyRows n = (type_of n = Some (typeTable opts))"
| "match_rule opts RowsContainRequiredColumns n = (type_of n = Some (typeTable opts))"
| "match_rule opts TableContainAlignData n = (type_of n = Some (typeTable opts))"

fun validate_noBlocksWithinCell :: "node \<Rightarrow> error + violation option" where
  "validate_noBlocksWithinCell (Text k s) = Inl TypeError"
| "validate_noBlocksWithinCell (Elem t k d cs) =
     (let nestedBlocks = filter (\<lambda>child. kind_of child = KBlock) cs
      in if length nestedBlocks > 0 then Inr (Some (NestedBlocks nestedBlocks)) else Inr None)"

fun validate_cellsWithinTable :: "opts \<Rightarrow> node \<Rightarrow> error + violation option" where
  "validate_cellsWithinTable opts (Text k s) = Inl TypeError"
| "validate_cellsWithinTable opts (Elem t k d cs) =
     (let cells = filter (\<lambda>n. type_of n = Some (typeCell opts)) cs
      in if cells = [] then Inr None else Inr (Some (OrphanCells cells)))"

fun validate_rowsWithinTable :: "opts \<Rightarrow> node \<Rightarrow> error + violation option" where
  "validate_rowsWithinTable opts (Text k s) = Inl TypeError"
| "validate_rowsWithinTable opts (Elem t k d cs) =
     (let rows = filter (\<lambda>n. type_of n = Some (typeRow opts)) cs
      in if rows = [] then Inr None else Inr (Some (OrphanRows rows)))"

text \<open>
  The table-content rule builds its synthesized row while validating, so the validation
  takes the host's key counter \<open>n\<close>; the row is built (and three keys are drawn)
  exactly when every child is a non-row. The counter after the call is \<open>keys_drawn\<close>
  of the payload further on.
\<close>

fun validate_tablesContainOnlyRows :: "opts \<Rightarrow> nat \<Rightarrow> node \<Rightarrow> error + violation option" where
  "validate_tablesContainOnlyRows opts n (Text k s) = Inl TypeError"
| "validate_tablesContainOnlyRows opts n (Elem t k d cs) =
     (let invalids = filter (\<lambda>c. \<not> isRow opts c) cs;
          add = (if length invalids = length cs then [makeEmptyRow opts n] else [])
      in if invalids = [] \<and> length add = 0 then Inr None
         else Inr (Some (BadChildren invalids add)))"

definition table_columns :: "opts \<Rightarrow> node list \<Rightarrow> nat" where
  "table_columns opts rows = foldl (\<lambda>count row. max count (countCells opts row)) 1 rows"

definition check_row :: "opts \<Rightarrow> nat \<Rightarrow> node \<Rightarrow> row_issue option" where
  "check_row opts columns row =
     (let cells = countCells opts row;
          invalids = filter (\<lambda>c. \<not> isCell opts c) (children row)
      in if invalids = [] \<and> cells = columns then None
         else Some \<lparr>ri_row = row, ri_invalids = invalids, ri_add = columns - cells\<rparr>)"

fun validate_rowsContainRequiredColumns :: "opts \<Rightarrow> node \<Rightarrow> error + violation option" where
  "validate_rowsContainRequiredColumns opts (Text k s) = Inl TypeError"
| "validate_rowsContainRequiredColumns opts (Elem t k d cs) =
     (let rows = filter (isRow opts) cs;
          columns = table_columns opts rows;
          invalidRows = List.map_filter (check_row opts columns) rows
      in if length invalidRows > 0 then Inr (Some (BadRows invalidRows)) else Inr None)"

fun validate_tableContainAlignData :: "node \<Rightarrow> error + violation option" where
  "validate_tableContainAlignData (Text k s) = Inl TypeError"
| "validate_tableContainAlignData (Elem t k d []) = Inl TypeError"
| "validate_tableContainAlignData (Elem t k d (row # rest)) =
     (case nodes_of row of
        None \<Rightarrow> Inl TypeError
      | Some rs \<Rightarrow>
          (let align = get_align d; columns = length rs
           in if length_of align = Some columns then Inr None
              else Inr (Some (BadAlign align columns))))"

fun validate_rule :: "opts \<Rightarrow> nat \<Rightarrow> rule \<Rightarrow> node \<Rightarrow> error + violation option" where
  "validate_rule opts n NoBlocksWithinCell x = validate_noBlocksWithinCell x"
| "validate_rule opts n CellsWithinTable x = validate_cellsWithinTable opts x"
| "validate_rule opts n RowsWithinTable x = validate_rowsWithinTable opts x"
| "validate_rule opts n TablesContainOnlyRows x = validate_tablesContainOnlyRows opts n x"
| "validate_rule opts n RowsContainRequiredColumns x = validate_rowsContainRequiredColumns opts x"
| "validate_rule opts n TableContainAlignData x = validate_tableContainAlignData x"

text \<open>Keys drawn from the host's counter while the payload was built.\<close>

fun keys_drawn :: "violation \<Rightarrow> nat" where
  "keys_drawn (BadChildren invalids add) = 3 * length add"
| "keys_drawn v = 0"

section \<open>The host's change object and its primitive edits\<close>

text \<open>
  The change object of the host framework is not part of this repository. Its state is
  modelled as the document, the key of the block holding the start of the selection, and
  the key counter. The primitives below follow the host's by-key edits as the spec's
  external interface lists them: every primitive looks its target up by key (failing with
  \<open>KeyNotFound\<close> when the document has no such node) and rewrites the document at that
  place. The host's own core normalisation, which the rules switch off with
  \<open>normalize: false\<close>, is not modelled.
\<close>

record change =
  document :: node
  start_key :: key
  next_key :: nat

fun all_nodes :: "node \<Rightarrow> node list" where
  "all_nodes (Text k s) = [Text k s]"
| "all_nodes (Elem t k d cs) = Elem t k d cs # concat (map all_nodes cs)"

definition keys :: "node \<Rightarrow> key list" where
  "keys n = map key_of (all_nodes n)"

text \<open>\<open>document.hasDescendant(key)\<close>: the root itself is no descendant.\<close>

definition hasDescendant :: "key \<Rightarrow> node \<Rightarrow> bool" where
  "hasDescendant k doc = (k \<in> set (concat (map keys (children doc))))"

text \<open>The first defined result of a list of lookups.\<close>

fun first_some :: "'a option list \<Rightarrow> 'a option" where
  "first_some [] = None"
| "first_some (x # xs) = (case x of Some y \<Rightarrow> Some y | None \<Rightarrow> first_some xs)"

text \<open>\<open>document.getParent(key)\<close>: the element with a child of that key.\<close>

fun getParent :: "key \<Rightarrow> node \<Rightarrow> node option" where
  "getParent k (Text k' s) = None"
| "getParent k (Elem t k' d cs) =
     (if k \<in> key_of ` set cs then Some (Elem t k' d cs)
      else first_some (map (getParent k) cs))"

text \<open>\<open>document.getNode(key)\<close>: the node of that key, the root included.\<close>

fun getNode :: "key \<Rightarrow> node \<Rightarrow> node option" where
  "getNode k (Text k' s) = (if k' = k then Some (Text k' s) else None)"
| "getNode k (Elem t k' d cs) =
     (if k' = k then Some (Elem t k' d cs) else first_some (map (getNode k) cs))"

text \<open>\<open>document.updateNode\<close>: replace the node of the given key.\<close>

fun update_node :: "key \<Rightarrow> (node \<Rightarrow> node) \<Rightarrow> node \<Rightarrow> node" where
  "update_node k f (Text k' s) = (if k' = k then f (Text k' s) else Text k' s)"
| "update_node k f (Elem t k' d cs) =
     (if k' = k then f (Elem t k' d cs) else Elem t k' d (map (update_node k f) cs))"

fun map_children :: "(node list \<Rightarrow> node list) \<Rightarrow> node \<Rightarrow> node" where
  "map_children g (Text k s) = Text k s"
| "map_children g (Elem t k d cs) = Elem t k d (g cs)"

text \<open>Remove the node of key \<open>k\<close> from its parent.\<close>

definition removeNodeByKey :: "key \<Rightarrow> change \<Rightarrow> error + change" where
  "removeNodeByKey k ch =
     (case getParent k (document ch) of
        None \<Rightarrow> Inl (KeyNotFound k)
      | Some p \<Rightarrow>
          Inr (ch\<lparr>document :=
                 update_node (key_of p) (map_children (filter (\<lambda>c. key_of c \<noteq> k)))
                   (document ch)\<rparr>))"

text \<open>Insert \<open>new\<close> at index \<open>i\<close> among the children of the element of key \<open>pk\<close>.\<close>

definition insert_at :: "nat \<Rightarrow> 'a \<Rightarrow> 'a list \<Rightarrow> 'a list" where
  "insert_at i x xs = take i xs @ x # drop i xs"

definition insertNodeByKey :: "key \<Rightarrow> nat \<Rightarrow> node \<Rightarrow> change \<Rightarrow> error + change" where
  "insertNodeByKey pk i new ch =
     (case getNode pk (document ch) of
        None \<Rightarrow> Inl (KeyNotFound pk)
      | Some (Text k s) \<Rightarrow> Inl TypeError
      | Some (Elem t k d cs) \<Rightarrow>
          Inr (ch\<lparr>document := update_node pk (map_children (insert_at i new)) (document ch)\<rparr>))"

text \<open>
  Wrap the node of key \<open>k\<close> in a new block of the given type and data: the block is
  created first (drawing a key), inserted at the node's index, and the node moved into it.
\<close>

definition wrap_child :: "key \<Rightarrow> string \<Rightarrow> key \<Rightarrow> data \<Rightarrow> node \<Rightarrow> node" where
  "wrap_child k ty nk d c = (if key_of c = k then Elem (Block ty) nk d [c] else c)"

definition wrapBlockByKey :: "key \<Rightarrow> string \<Rightarrow> data \<Rightarrow> change \<Rightarrow> error + change" where
  "wrapBlockByKey k ty d ch =
     (case getParent k (document ch) of
        None \<Rightarrow> Inl (KeyNotFound k)
      | Some p \<Rightarrow>
          Inr (ch\<lparr>document :=
                 update_node (key_of p) (map_children (map (wrap_child k ty (next_key ch) d)))
                   (document ch),
               next_key := Suc (next_key ch)\<rparr>))"

text \<open>
  Set properties of the node of key \<open>k\<close>: its type, its data, or both. A property is
  replaced whole. A text leaf has neither property and a document has no type.
\<close>

fun set_props :: "string option \<Rightarrow> data option \<Rightarrow> node \<Rightarrow> error + node" where
  "set_props ty dt (Text k s) = Inl TypeError"
| "set_props ty dt (Elem Document k d cs) =
     (case ty of Some x \<Rightarrow> Inl TypeError
      | None \<Rightarrow> Inr (Elem Document k (case dt of None \<Rightarrow> d | Some d' \<Rightarrow> d') cs))"
| "set_props ty dt (Elem (Block b) k d cs) =
     Inr (Elem (Block (case ty of None \<Rightarrow> b | Some b' \<Rightarrow> b')) k
            (case dt of None \<Rightarrow> d | Some d' \<Rightarrow> d') cs)"
| "set_props ty dt (Elem (Inline b) k d cs) =
     Inr (Elem (Inline (case ty of None \<Rightarrow> b | Some b' \<Rightarrow> b')) k
            (case dt of None \<Rightarrow> d | Some d' \<Rightarrow> d') cs)"

definition setNodeByKey :: "key \<Rightarrow> string option \<Rightarrow> data option \<Rightarrow> change \<Rightarrow> error + change" where
  "setNodeByKey k ty dt ch =
     (case getNode k (document ch) of
        None \<Rightarrow> Inl (KeyNotFound k)
      | Some x \<Rightarrow>
          (case set_props ty dt x of
             Inl e \<Rightarrow> Inl e
           | Inr x' \<Rightarrow> Inr (ch\<lparr>document := update_node k (\<lambda>_. x') (document ch)\<rparr>)))"

text \<open>Insert a string at an offset of the text leaf of key \<open>k\<close>.\<close>

definition insertTextByKey :: "key \<Rightarrow> nat \<Rightarrow> string \<Rightarrow> change \<Rightarrow> error + change" where
  "insertTextByKey k offset str ch =
     (case getNode k (document ch) of
        None \<Rightarrow> Inl (KeyNotFound k)
      | Some (Elem t k' d cs) \<Rightarrow> Inl TypeError
      | Some (Text k' s) \<Rightarrow>
          Inr (ch\<lparr>document :=
                 update_node k (\<lambda>_. Text k' (take offset s @ str @ drop offset s))
                   (document ch)\<rparr>))"

text \<open>
  Unwrap the node of key \<open>k\<close>: lift it out of its parent into the grandparent, at the
  parent's place. A parent it was the only child of is removed; a first child goes before
  the parent, a last child after it; for a child in the middle the parent is split in
  two around it, the second half taking a new key.
\<close>

fun index_of_key :: "key \<Rightarrow> node list \<Rightarrow> nat" where
  "index_of_key k [] = 0"
| "index_of_key k (c # cs) = (if key_of c = k then 0 else Suc (index_of_key k cs))"

definition is_middle :: "key \<Rightarrow> node \<Rightarrow> bool" where
  "is_middle k p =
     (let cs = children p; i = index_of_key k cs
      in length cs \<noteq> 1 \<and> i \<noteq> 0 \<and> i \<noteq> length cs - 1)"

fun lift_child :: "key \<Rightarrow> key \<Rightarrow> node \<Rightarrow> node list" where
  "lift_child nk k (Text pk s) = [Text pk s]"
| "lift_child nk k (Elem t pk d cs) =
     (let i = index_of_key k cs; x = cs ! i
      in if length cs = 1 then [x]
         else if i = 0 then [x, Elem t pk d (drop 1 cs)]
         else if i = length cs - 1 then [Elem t pk d (take i cs), x]
         else [Elem t pk d (take i cs), x, Elem t nk d (drop (Suc i) cs)])"

definition lift_in :: "key \<Rightarrow> key \<Rightarrow> key \<Rightarrow> node list \<Rightarrow> node list" where
  "lift_in nk k pk gs = concat (map (\<lambda>p. if key_of p = pk then lift_child nk k p else [p]) gs)"

definition unwrapNodeByKey :: "key \<Rightarrow> change \<Rightarrow> error + change" where
  "unwrapNodeByKey k ch =
     (case getParent k (document ch) of
        None \<Rightarrow> Inl (KeyNotFound k)
      | Some p \<Rightarrow>
          (case getParent (key_of p) (document ch) of
             None \<Rightarrow> Inl TypeError
           | Some g \<Rightarrow>
               Inr (ch\<lparr>document :=
                      update_node (key_of g)
                        (map_children (lift_in (next_key ch) k (key_of p))) (document ch),
                    next_key := (if is_middle k p then Suc (next_key ch) else next_key ch)\<rparr>)))"

text \<open>\<open>list.forEach\<close> over a state-passing body that may fail.\<close>

fun forEach :: "('a \<Rightarrow> change \<Rightarrow> error + change) \<Rightarrow> 'a list \<Rightarrow> change \<Rightarrow> error + change" where
  "forEach f [] ch = Inr ch"
| "forEach f (x # xs) ch = (case f x ch of Inl e \<Rightarrow> Inl e | Inr ch' \<Rightarrow> forEach f xs ch')"

definition and_then :: "error + change \<Rightarrow> (change \<Rightarrow> error + change) \<Rightarrow> error + change" where
  "and_then r f = (case r of Inl e \<Rightarrow> Inl e | Inr ch \<Rightarrow> f ch)"

text \<open>
  The number range of the collection library, \<open>Range(start, end)\<close>: from \<open>start\<close> up
  to \<open>end\<close> exclusive, and counting down from \<open>start\<close> when \<open>end\<close> is below it.
\<close>

definition RangeSeq :: "nat \<Rightarrow> nat \<Rightarrow> nat list" where
  "RangeSeq start end =
     (if start \<le> end then [start..<end] else rev [Suc end..<Suc start])"

section \<open>The rules: normalize\<close>

definition unwrap_grandChild :: "nat \<Rightarrow> node \<Rightarrow> change \<Rightarrow> error + change" where
  "unwrap_grandChild index grandChild ch =
     (if hasDescendant (key_of grandChild) (document ch) then
        (if kind_of grandChild = KText \<and> index \<noteq> 0
         then and_then (insertTextByKey (key_of grandChild) 0 [CHR 0x0A] ch)
                (unwrapNodeByKey (key_of grandChild))
         else unwrapNodeByKey (key_of grandChild) ch)
      else Inr ch)"

definition normalize_noBlocksWithinCell :: "change \<Rightarrow> node \<Rightarrow> node list \<Rightarrow> error + change" where
  "normalize_noBlocksWithinCell ch node nestedBlocks =
     forEach (\<lambda>(block, index). forEach (unwrap_grandChild index) (children block))
       (zip nestedBlocks [0..<length nestedBlocks]) ch"

definition normalize_cellsWithinTable :: "opts \<Rightarrow> change \<Rightarrow> node \<Rightarrow> node list \<Rightarrow> error + change" where
  "normalize_cellsWithinTable opts ch node cells =
     forEach (\<lambda>cell. wrapBlockByKey (key_of cell) (typeRow opts) []) cells ch"

definition normalize_rowsWithinTable :: "opts \<Rightarrow> change \<Rightarrow> node \<Rightarrow> node list \<Rightarrow> error + change" where
  "normalize_rowsWithinTable opts ch node rows =
     forEach (\<lambda>row. wrapBlockByKey (key_of row) (typeTable opts)
                      [(''align'', Vec (createAlign (length (children row)) None))]) rows ch"

definition normalize_tablesContainOnlyRows ::
  "change \<Rightarrow> node \<Rightarrow> node list \<Rightarrow> node list \<Rightarrow> error + change" where
  "normalize_tablesContainOnlyRows ch node invalids add =
     and_then (forEach (\<lambda>child. removeNodeByKey (key_of child)) invalids ch)
       (forEach (\<lambda>child. insertNodeByKey (key_of node) 0 child) add)"

definition convert_invalid :: "opts \<Rightarrow> node \<Rightarrow> change \<Rightarrow> error + change" where
  "convert_invalid opts child ch =
     (if \<not> isBlock child then wrapBlockByKey (key_of child) (typeCell opts) [] ch
      else setNodeByKey (key_of child) (Some (typeCell opts)) None ch)"

definition insert_cell :: "opts \<Rightarrow> key \<Rightarrow> nat \<Rightarrow> nat \<Rightarrow> change \<Rightarrow> error + change" where
  "insert_cell opts row_key base index ch =
     (let cell = makeEmptyCell opts (next_key ch)
      in insertNodeByKey row_key (base + index) cell (ch\<lparr>next_key := next_key ch + 2\<rparr>))"

definition fix_row :: "opts \<Rightarrow> row_issue \<Rightarrow> change \<Rightarrow> error + change" where
  "fix_row opts issue ch =
     and_then (forEach (convert_invalid opts) (ri_invalids issue) ch)
       (forEach (insert_cell opts (key_of (ri_row issue)) (length (ri_invalids issue)))
          [0..<length (RangeSeq (length (ri_invalids issue)) (ri_add issue))])"

definition normalize_rowsContainRequiredColumns ::
  "opts \<Rightarrow> change \<Rightarrow> node \<Rightarrow> row_issue list \<Rightarrow> error + change" where
  "normalize_rowsContainRequiredColumns opts ch node rows = forEach (fix_row opts) rows ch"

definition normalize_tableContainAlignData ::
  "change \<Rightarrow> node \<Rightarrow> dvalue \<Rightarrow> nat \<Rightarrow> error + change" where
  "normalize_tableContainAlignData ch node align columns =
     setNodeByKey (key_of node) None
       (Some (AList.update ''align'' (Vec (createAlign columns (Some align))) (data_of node))) ch"

fun normalize_rule :: "opts \<Rightarrow> rule \<Rightarrow> change \<Rightarrow> node \<Rightarrow> violation \<Rightarrow> error + change" where
  "normalize_rule opts NoBlocksWithinCell ch x (NestedBlocks bs) =
     normalize_noBlocksWithinCell ch x bs"
| "normalize_rule opts CellsWithinTable ch x (OrphanCells cells) =
     normalize_cellsWithinTable opts ch x cells"
| "normalize_rule opts RowsWithinTable ch x (OrphanRows rows) =
     normalize_rowsWithinTable opts ch x rows"
| "normalize_rule opts TablesContainOnlyRows ch x (BadChildren invalids add) =
     normalize_tablesContainOnlyRows ch x invalids add"
| "normalize_rule opts RowsContainRequiredColumns ch x (BadRows rows) =
     normalize_rowsContainRequiredColumns opts ch x rows"
| "normalize_rule opts TableContainAlignData ch x (BadAlign align columns) =
     normalize_tableContainAlignData ch x align columns"
| "normalize_rule opts r ch x v = Inl TypeError"

section \<open>The host's normalisation engine\<close>

text \<open>
  The engine belongs to the host framework; it is modelled after the spec's rule engine.
  A node is checked against the rules in schema order and the first rule that matches and
  reports a violation wins. The tree is searched children first. One step normalizes the
  first violation found; the engine repeats steps until no node reports a violation, and
  gives up with \<open>NotConverged\<close> when its iteration budget runs out.
\<close>

fun check_rules :: "opts \<Rightarrow> nat \<Rightarrow> rule list \<Rightarrow> node \<Rightarrow> error + (rule \<times> violation) option" where
  "check_rules opts n [] x = Inr None"
| "check_rules opts n (r # rs) x =
     (if match_rule opts r x then
        (case validate_rule opts n r x of
           Inl e \<Rightarrow> Inl e
         | Inr (Some v) \<Rightarrow> Inr (Some (r, v))
         | Inr None \<Rightarrow> check_rules opts n rs x)
      else check_rules opts n rs x)"

definition check_node :: "opts \<Rightarrow> nat \<Rightarrow> node \<Rightarrow> error + (node \<times> rule \<times> violation) option" where
  "check_node opts n x =
     (case check_rules opts n makeSchema x of
        Inl e \<Rightarrow> Inl e
      | Inr None \<Rightarrow> Inr None
      | Inr (Some (r, v)) \<Rightarrow> Inr (Some (x, r, v)))"

fun find_violation :: "opts \<Rightarrow> nat \<Rightarrow> node \<Rightarrow> error + (node \<times> rule \<times> violation) option"
  and find_violation_list ::
    "opts \<Rightarrow> nat \<Rightarrow> node list \<Rightarrow> error + (node \<times> rule \<times> violation) option" where
  "find_violation opts n (Text k s) = check_node opts n (Text k s)"
| "find_violation opts n (Elem t k d cs) =
     (case find_violation_list opts n cs of
        Inl e \<Rightarrow> Inl e
      | Inr (Some v) \<Rightarrow> Inr (Some v)
      | Inr None \<Rightarrow> check_node opts n (Elem t k d cs))"
| "find_violation_list opts n [] = Inr None"
| "find_violation_list opts n (c # cs) =
     (case find_violation opts n c of
        Inl e \<Rightarrow> Inl e
      | Inr (Some v) \<Rightarrow> Inr (Some v)
      | Inr None \<Rightarrow> find_violation_list opts n cs)"

fun normalize_doc :: "opts \<Rightarrow> nat \<Rightarrow> change \<Rightarrow> error + change" where
  "normalize_doc opts 0 ch = Inl NotConverged"
| "normalize_doc opts (Suc fuel) ch =
     (case find_violation opts (next_key ch) (document ch) of
        Inl e \<Rightarrow> Inl e
      | Inr None \<Rightarrow> Inr ch
      | Inr (Some (x, r, v)) \<Rightarrow>
          (case normalize_rule opts r (ch\<lparr>next_key := next_key ch + keys_drawn v\<rparr>) x v of
             Inl e \<Rightarrow> Inl e
           | Inr ch' \<Rightarrow> normalize_doc opts fuel ch'))"

section \<open>Position resolver and commands\<close>

text \<open>
  Modelled from the spec: TablePosition is not among the source files. The resolver walks
  the ancestors of the anchor node to find the nearest row and table ancestors (and the
  cell: the anchor itself when it is a cell, its nearest cell ancestor otherwise), and
  fails with \<open>NotInTable\<close> when they do not exist. Row and column index are the linear
  position among the siblings of the relevant type (\<open>-1\<close> when absent), the width is
  the widest row's cell count.
\<close>

record table_position =
  tp_table :: node
  tp_row :: node
  tp_cell :: node

fun path_to :: "key \<Rightarrow> node \<Rightarrow> node list option" where
  "path_to k (Text k' s) = (if k' = k then Some [Text k' s] else None)"
| "path_to k (Elem t k' d cs) =
     (if k' = k then Some [Elem t k' d cs]
      else (case first_some (map (path_to k) cs) of
              None \<Rightarrow> None
            | Some p \<Rightarrow> Some (Elem t k' d cs # p)))"

definition TablePosition_create :: "opts \<Rightarrow> node \<Rightarrow> key \<Rightarrow> error + table_position" where
  "TablePosition_create opts doc anchor =
     (case path_to anchor doc of
        None \<Rightarrow> Inl (KeyNotFound anchor)
      | Some path \<Rightarrow>
          (let ancestors = rev (butlast path);
               node = last path;
               table = find (isTable opts) ancestors;
               row = find (isRow opts) ancestors;
               cell = (if isCell opts node then Some node else find (isCell opts) ancestors)
           in case (table, row, cell) of
                (Some t, Some r, Some c) \<Rightarrow> Inr \<lparr>tp_table = t, tp_row = r, tp_cell = c\<rparr>
              | _ \<Rightarrow> Inl NotInTable))"

fun index_in :: "key \<Rightarrow> node list \<Rightarrow> int" where
  "index_in k [] = -1"
| "index_in k (c # cs) =
     (if key_of c = k then 0 else (let i = index_in k cs in if i < 0 then -1 else i + 1))"

definition table_rows :: "opts \<Rightarrow> table_position \<Rightarrow> node list" where
  "table_rows opts pos = filter (isRow opts) (children (tp_table pos))"

definition getRowIndex :: "opts \<Rightarrow> table_position \<Rightarrow> int" where
  "getRowIndex opts pos = index_in (key_of (tp_row pos)) (table_rows opts pos)"

definition getColumnIndex :: "opts \<Rightarrow> table_position \<Rightarrow> int" where
  "getColumnIndex opts pos =
     index_in (key_of (tp_cell pos)) (filter (isCell opts) (children (tp_row pos)))"

definition getWidth :: "opts \<Rightarrow> table_position \<Rightarrow> nat" where
  "getWidth opts pos = foldr max (map (countCells opts) (table_rows opts pos)) 0"

definition isFirstRow :: "opts \<Rightarrow> table_position \<Rightarrow> bool" where
  "isFirstRow opts pos = (getRowIndex opts pos = 0)"

definition isLastRow :: "opts \<Rightarrow> table_position \<Rightarrow> bool" where
  "isLastRow opts pos = (getRowIndex opts pos = int (length (table_rows opts pos)) - 1)"

text \<open>
  The assignment \<open>array[at] = value\<close>: in range it replaces the entry, past the end it
  extends the array and leaves holes in between, and a negative index leaves the entries
  as they are.
\<close>

definition array_set :: "align option list \<Rightarrow> int \<Rightarrow> align \<Rightarrow> align option list" where
  "array_set xs at v =
     (if at < 0 then xs
      else if nat at < length xs then xs[nat at := Some v]
      else xs @ replicate (nat at - length xs) None @ [Some v])"

text \<open>
  setColumnAlign. An omitted \<open>align\<close> argument takes the default tag, an omitted \<open>at\<close>
  the resolver's column index.
\<close>

definition setColumnAlign :: "opts \<Rightarrow> change \<Rightarrow> align option \<Rightarrow> int option \<Rightarrow> error + change" where
  "setColumnAlign opts ch align_arg at_arg =
     (let align = (case align_arg of None \<Rightarrow> ADefault | Some a \<Rightarrow> a)
      in case TablePosition_create opts (document ch) (start_key ch) of
           Inl e \<Rightarrow> Inl e
         | Inr pos \<Rightarrow>
             (let table = tp_table pos;
                  at = (case at_arg of None \<Rightarrow> getColumnIndex opts pos | Some a \<Rightarrow> a);
                  newAlign =
                    array_set (createAlign (getWidth opts pos) (map_of (data_of table) ''align''))
                      at align
              in setNodeByKey (key_of table) None
                   (Some [(''align'',
                           Obj (AList.update ''align'' (Vec newAlign) (data_of table)))]) ch))"

text \<open>
  Modelled from the spec: moveSelectionBy is not among the source files. It computes the
  target row by offset from the resolver's row index and repositions the selection within
  the target row at the equivalent column; a target outside the table is an error.
\<close>

definition nth_int :: "'a list \<Rightarrow> int \<Rightarrow> 'a option" where
  "nth_int xs i = (if 0 \<le> i \<and> nat i < length xs then Some (xs ! nat i) else None)"

definition moveSelectionBy :: "opts \<Rightarrow> change \<Rightarrow> int \<Rightarrow> int \<Rightarrow> error + change" where
  "moveSelectionBy opts ch x y =
     (case TablePosition_create opts (document ch) (start_key ch) of
        Inl e \<Rightarrow> Inl e
      | Inr pos \<Rightarrow>
          (case nth_int (table_rows opts pos) (getRowIndex opts pos + y) of
             None \<Rightarrow> Inl NotInTable
           | Some row \<Rightarrow>
               (case nth_int (filter (isCell opts) (children row)) (getColumnIndex opts pos + x) of
                  None \<Rightarrow> Inl NotInTable
                | Some cell \<Rightarrow> Inr (ch\<lparr>start_key := key_of cell\<rparr>))))"

record event =
  ev_key :: string
  defaultPrevented :: bool

definition onUpDown :: "event \<Rightarrow> change \<Rightarrow> opts \<Rightarrow> error + (event \<times> change)" where
  "onUpDown ev ch opts =
     (let direction = (if ev_key ev = ''UpArrow'' then - 1 else (1::int))
      in case TablePosition_create opts (document ch) (start_key ch) of
           Inl e \<Rightarrow> Inl e
         | Inr pos \<Rightarrow>
             (if isFirstRow opts pos \<and> direction = - 1 \<or> isLastRow opts pos \<and> direction = 1
              then Inr (ev, ch)
              else (case moveSelectionBy opts ch 0 (if ev_key ev = ''UpArrow'' then - 1 else 1) of
                      Inl e \<Rightarrow> Inl e
                    | Inr ch' \<Rightarrow> Inr (ev\<lparr>defaultPrevented := True\<rparr>, ch'))))"

section \<open>Example documents\<close>

definition example_opts :: opts where
  "example_opts = \<lparr>typeTable = ''table'', typeRow = ''table_row'', typeCell = ''table_cell''\<rparr>"

definition cell_of :: "key \<Rightarrow> key \<Rightarrow> string \<Rightarrow> node" where
  "cell_of k kt s = Elem (Block ''table_cell'') k [] [Text kt s]"

text \<open>A well-formed table of one row and one cell.\<close>

definition small_table :: node where
  "small_table =
     Elem (Block ''table'') 1 [(''align'', Vec [Some ADefault])]
       [Elem (Block ''table_row'') 2 [] [cell_of 3 4 ''a'']]"

text \<open>A table whose only child is a text leaf.\<close>

definition text_table :: node where
  "text_table = Elem (Block ''table'') 1 [] [Text 2 ''x'']"


text \<open>Two sibling cells directly under the document.\<close>

definition two_cells_doc :: node where
  "two_cells_doc = Elem Document 0 [] [cell_of 1 2 ''a'', cell_of 3 4 ''b'']"

text \<open>A table of one row and two cells, with the given data.\<close>

definition two_col_table :: "data \<Rightarrow> node" where
  "two_col_table d =
     Elem (Block ''table'') 1 d
       [Elem (Block ''table_row'') 2 [] [cell_of 3 4 ''a'', cell_of 5 6 ''b'']]"

text \<open>A table whose only row holds a cell and a paragraph.\<close>

definition mixed_row_table :: node where
  "mixed_row_table =
     Elem (Block ''table'') 1 [(''align'', Vec [Some ADefault])]
       [Elem (Block ''table_row'') 2 []
          [cell_of 3 4 ''a'', Elem (Block ''paragraph'') 5 [] [Text 6 ''x'']]]"

text \<open>A table of two rows and two columns.\<close>

definition grid_row1 :: node where
  "grid_row1 = Elem (Block ''table_row'') 2 [] [cell_of 3 4 ''a'', cell_of 5 6 ''b'']"

definition grid_row2 :: node where
  "grid_row2 = Elem (Block ''table_row'') 7 [] [cell_of 8 9 ''c'', cell_of 10 11 ''d'']"

definition grid_table :: node where
  "grid_table =
     Elem (Block ''table'') 1 [(''align'', Vec [Some ADefault, Some ADefault])]
       [grid_row1, grid_row2]"

definition grid_doc :: node where
  "grid_doc = Elem Document 0 [] [grid_table]"

text \<open>A table whose only child is a paragraph.\<close>

definition stray_doc :: node where
  "stray_doc =
     Elem Document 0 []
       [Elem (Block ''table'') 1 [] [Elem (Block ''paragraph'') 2 [] [Text 3 ''x'']]]"

text \<open>A cell that holds two paragraphs.\<close>

definition two_paragraph_doc :: node where
  "two_paragraph_doc =
     Elem Document 0 []
       [Elem (Block ''table_cell'') 1 []
          [Elem (Block ''paragraph'') 2 [] [Text 3 ''a''],
           Elem (Block ''paragraph'') 4 [] [Text 5 ''b'']]]"

text \<open>
  A table without alignment data whose first row has three cells and whose second row has
  one, and the same table after normalisation: the second row has gained two empty cells
  and the table an alignment vector of three default tags.
\<close>

definition ragged_doc :: node where
  "ragged_doc =
     Elem Document 0 []
       [Elem (Block ''table'') 1 []
          [Elem (Block ''table_row'') 2 [] [cell_of 3 4 ''a'', cell_of 5 6 ''b'', cell_of 7 8 ''c''],
           Elem (Block ''table_row'') 9 [] [cell_of 10 11 ''d'']]]"

definition padded_table :: node where
  "padded_table =
     Elem (Block ''table'') 1 [(''align'', Vec [Some ADefault, Some ADefault, Some ADefault])]
       [Elem (Block ''table_row'') 2 [] [cell_of 3 4 ''a'', cell_of 5 6 ''b'', cell_of 7 8 ''c''],
        Elem (Block ''table_row'') 9 [] [cell_of 13 12 [], cell_of 15 14 [], cell_of 10 11 ''d'']]"

text \<open>A well-formed table whose only cell holds a paragraph without children.\<close>

definition hollow_cell :: node where
  "hollow_cell = Elem (Block ''table_cell'') 3 [] [Elem (Block ''paragraph'') 4 [] []]"

definition hollow_doc :: node where
  "hollow_doc =
     Elem Document 0 []
       [Elem (Block ''table'') 1 [(''align'', Vec [Some ADefault])]
          [Elem (Block ''table_row'') 2 [] [hollow_cell]]]"

text \<open>A table of two rows, the first with one cell and the second with two.\<close>

definition uneven_doc :: node where
  "uneven_doc =
     Elem Document 0 []
       [Elem (Block ''table'') 1 [(''align'', Vec [Some ADefault, Some ADefault])]
          [Elem (Block ''table_row'') 2 [] [cell_of 3 4 ''a''],
           Elem (Block ''table_row'') 5 [] [cell_of 6 7 ''b'', cell_of 8 9 ''c'']]]"

text \<open>
  A table whose first row has four cells and whose second row holds a paragraph, an
  inline and a cell.
\<close>

definition patchy_table :: node where
  "patchy_table =
     Elem (Block ''table'') 1 [(''align'', Vec [Some ADefault])]
       [Elem (Block ''table_row'') 2 []
          [cell_of 3 4 ''a'', cell_of 5 6 ''b'', cell_of 7 8 ''c'', cell_of 9 10 ''d''],
        Elem (Block ''table_row'') 11 []
          [Elem (Block ''paragraph'') 12 [] [Text 13 ''p''],
           Elem (Inline ''link'') 14 [] [Text 15 ''l''],
           cell_of 16 17 ''e'']]"

text \<open>A table whose only row holds a cell and two paragraphs.\<close>

definition crowded_table :: node where
  "crowded_table =
     Elem (Block ''table'') 1 [(''align'', Vec [Some ADefault])]
       [Elem (Block ''table_row'') 2 []
          [cell_of 3 4 ''a'',
           Elem (Block ''paragraph'') 5 [] [Text 6 ''p''],
           Elem (Block ''paragraph'') 7 [] [Text 8 ''q'']]]"

section \<open>The rules' invariants in the words of the specification\<close>

text \<open>
  The invariant of a rule is the absence of the violation the specification lists for it:
  a cell has no block child; a node has no direct cell child; a node has no direct row
  child; a table has no non-row child and not all of its children are non-rows; no row of
  a table has a cell count other than the table width (the maximum cell count across the
  rows, at least 1) or a non-cell child; the alignment vector's length is the table width
  computed from the first row's cell count.
\<close>

fun rule_invariant :: "opts \<Rightarrow> rule \<Rightarrow> node \<Rightarrow> bool" where
  "rule_invariant opts NoBlocksWithinCell x = (\<not> (\<exists>c \<in> set (children x). kind_of c = KBlock))"
| "rule_invariant opts CellsWithinTable x = (\<not> (\<exists>c \<in> set (children x). isCell opts c))"
| "rule_invariant opts RowsWithinTable x = (\<not> (\<exists>c \<in> set (children x). isRow opts c))"
| "rule_invariant opts TablesContainOnlyRows x =
     (\<not> ((\<exists>c \<in> set (children x). \<not> isRow opts c) \<or> (\<forall>c \<in> set (children x). \<not> isRow opts c)))"
| "rule_invariant opts RowsContainRequiredColumns x =
     (\<not> (\<exists>row \<in> set (filter (isRow opts) (children x)).
            countCells opts row
              \<noteq> Max (insert 1 (countCells opts ` set (filter (isRow opts) (children x))))
            \<or> (\<exists>c \<in> set (children row). \<not> isCell opts c)))"
| "rule_invariant opts TableContainAlignData x =
     (case filter (isRow opts) (children x) of
        [] \<Rightarrow> False
      | row # rest \<Rightarrow> length_of (get_align (data_of x)) = Some (countCells opts row))"

section \<open>Keys of a tree\<close>

text \<open>The keys of the proper descendants of a node.\<close>

definition desc_keys :: "node \<Rightarrow> key list" where
  "desc_keys n = concat (map keys (children n))"

text \<open>
  A node \<open>C'\<close> fits in place of the node \<open>C\<close> of the document \<open>D\<close> when it keeps the
  key of \<open>C\<close>, its own keys are distinct, and none of them occurs in \<open>D\<close> outside \<open>C\<close>.
\<close>

definition fits :: "node \<Rightarrow> node \<Rightarrow> node \<Rightarrow> bool" where
  "fits D C C' \<longleftrightarrow>
     distinct (keys D) \<and> C \<in> set (all_nodes D) \<and> key_of C' = key_of C
     \<and> distinct (keys C') \<and> set (keys C') \<inter> (set (keys D) - set (keys C)) = {}"

text \<open>The document \<open>D\<close> with the node of the key of \<open>C\<close> replaced by \<open>C'\<close>.\<close>

definition subst :: "node \<Rightarrow> node \<Rightarrow> node \<Rightarrow> node" where
  "subst D C C' = update_node (key_of C) (\<lambda>_. C') D"

section \<open>The result of the cell-content rule in closed form\<close>

text \<open>
  A child promoted out of the block of index \<open>idx\<close>: a text leaf gains a leading
  newline unless the index is 0.
\<close>

fun mark_text :: "nat \<Rightarrow> node \<Rightarrow> node" where
  "mark_text idx (Text k s) = (if idx \<noteq> 0 then Text k (CHR 0x0A # s) else Text k s)"
| "mark_text idx (Elem t k d cs) = Elem t k d cs"

text \<open>
  The children of a cell after the rule has run, in the words of the specification,
  \<open>idx\<close> being the index of the next child among the children of the cell: every block
  child is replaced, in place, by its children, and a promoted text leaf gains a newline
  exactly when the block was not the first child.
\<close>

fun promote :: "nat \<Rightarrow> node list \<Rightarrow> node list" where
  "promote idx [] = []"
| "promote idx (c # cs) = map (mark_text idx) (children c) @ promote (Suc idx) cs"

text \<open>
  The children of a cell after the code has run on an arbitrary cell, \<open>idx\<close> being the
  index of the next nested block among the nested blocks: the code visits the children of
  every nested block, so a block child without children is not touched, and neither is a
  child that is no block.
\<close>

fun unwrapped :: "nat \<Rightarrow> node list \<Rightarrow> node list" where
  "unwrapped idx [] = []"
| "unwrapped idx (c # cs) =
     (if kind_of c = KBlock
      then (if children c = [] then [c] else map (mark_text idx) (children c))
           @ unwrapped (Suc idx) cs
      else c # unwrapped idx cs)"

section \<open>The result of the row rule in closed form\<close>

text \<open>A block child of a row, retyped to a cell.\<close>

fun retype :: "opts \<Rightarrow> node \<Rightarrow> node" where
  "retype opts (Elem (Block b) k d cs) = Elem (Block (typeCell opts)) k d cs"
| "retype opts x = x"

text \<open>
  The children of a row after the conversion of its non-cell children, \<open>n\<close> being the
  key counter: a cell stays, a non-cell block is retyped to a cell, and any other child is
  wrapped in a new cell that takes the next key.
\<close>

fun converted :: "opts \<Rightarrow> nat \<Rightarrow> node list \<Rightarrow> node list" where
  "converted opts n [] = []"
| "converted opts n (c # cs) =
     (if isCell opts c then c # converted opts n cs
      else if isBlock c then retype opts c # converted opts n cs
      else Elem (Block (typeCell opts)) n [] [c] # converted opts (Suc n) cs)"

text \<open>The number of children that the conversion wraps.\<close>

definition wraps :: "opts \<Rightarrow> node list \<Rightarrow> nat" where
  "wraps opts cs = length (filter (\<lambda>c. \<not> isCell opts c \<and> \<not> isBlock c) cs)"

text \<open>\<open>a\<close> synthesized empty cells, built one after the other from the key counter \<open>n\<close>.\<close>

definition new_cells :: "opts \<Rightarrow> nat \<Rightarrow> nat \<Rightarrow> node list" where
  "new_cells opts n a = map (\<lambda>j. makeEmptyCell opts (n + 2 * j)) [0..<a]"

text \<open>The number of non-cell children of a row, and of the cells it lacks.\<close>

definition invalid_count :: "opts \<Rightarrow> node \<Rightarrow> nat" where
  "invalid_count opts row = length (filter (\<lambda>c. \<not> isCell opts c) (children row))"

definition missing_count :: "opts \<Rightarrow> nat \<Rightarrow> node \<Rightarrow> nat" where
  "missing_count opts columns row = columns - countCells opts row"

text \<open>
  The number of synthesized cells that a row receives: the size of the range that the
  rule walks, from the number of non-cell children to the number of missing cells. It is
  their difference when the row has no more non-cell children than it lacks cells.
\<close>

definition added_count :: "opts \<Rightarrow> nat \<Rightarrow> node \<Rightarrow> nat" where
  "added_count opts columns row =
     length (RangeSeq (invalid_count opts row) (missing_count opts columns row))"

text \<open>
  A repaired row: its children are converted, and the synthesized cells are inserted, as
  one run, after the first \<open>invalid_count\<close> children.
\<close>

fun fixed_row :: "opts \<Rightarrow> nat \<Rightarrow> nat \<Rightarrow> node \<Rightarrow> node" where
  "fixed_row opts columns n (Text k s) = Text k s"
| "fixed_row opts columns n (Elem tr kr dr rs) =
     Elem tr kr dr
       (take (invalid_count opts (Elem tr kr dr rs)) (converted opts n rs)
        @ new_cells opts (n + wraps opts rs) (added_count opts columns (Elem tr kr dr rs))
        @ drop (invalid_count opts (Elem tr kr dr rs)) (converted opts n rs))"

text \<open>The keys that the repair of a row draws from the counter.\<close>

definition keys_used :: "opts \<Rightarrow> nat \<Rightarrow> node \<Rightarrow> nat" where
  "keys_used opts columns row =
     wraps opts (children row) + 2 * added_count opts columns row"

text \<open>
  The children of a table after the rule has run: every row that the validation reports
  is repaired, in order, and every other child stays.
\<close>

fun fixed_rows :: "opts \<Rightarrow> nat \<Rightarrow> nat \<Rightarrow> node list \<Rightarrow> node list" where
  "fixed_rows opts columns n [] = []"
| "fixed_rows opts columns n (c # cs) =
     (if isRow opts c \<and> check_row opts columns c \<noteq> None
      then fixed_row opts columns n c # fixed_rows opts columns (n + keys_used opts columns c) cs
      else c # fixed_rows opts columns n cs)"

fun keys_used_all :: "opts \<Rightarrow> nat \<Rightarrow> node list \<Rightarrow> nat" where
  "keys_used_all opts columns [] = 0"
| "keys_used_all opts columns (c # cs) =
     (if isRow opts c \<and> check_row opts columns c \<noteq> None
      then keys_used opts columns c + keys_used_all opts columns cs
      else keys_used_all opts columns cs)"

text \<open>Every key of a tree lies below the key counter.\<close>

definition below :: "node \<Rightarrow> nat \<Rightarrow> bool" where
  "below x n \<longleftrightarrow> (\<forall>k \<in> set (keys x). k < n)"

section \<open>Validation at a fixpoint\<close>

lemma check_rules_None:
  "check_rules opts n rs x = Inr None \<Longrightarrow> r \<in> set rs \<Longrightarrow> match_rule opts r x
     \<Longrightarrow> validate_rule opts n r x = Inr None"
  by (induction rs) (auto split: if_splits sum.splits option.splits)

lemma find_violation_None:
  "find_violation opts n x = Inr None \<Longrightarrow> y \<in> set (all_nodes x) \<Longrightarrow> check_node opts n y = Inr None"
  "find_violation_list opts n xs = Inr None \<Longrightarrow> c \<in> set xs \<Longrightarrow> y \<in> set (all_nodes c)
     \<Longrightarrow> check_node opts n y = Inr None"
  by (induction opts n x and opts n xs arbitrary: y and c y rule: find_violation_find_violation_list.induct)
     (auto split: sum.splits option.splits)

lemma check_node_None:
  "check_node opts n x = Inr None \<longleftrightarrow> check_rules opts n makeSchema x = Inr None"
  by (auto simp: check_node_def split: sum.splits option.splits)

lemma validate5_None:
  assumes "validate_rowsContainRequiredColumns opts (Elem t k d cs) = Inr None"
    and "row \<in> set cs" and "isRow opts row"
  shows "countCells opts row = table_columns opts (filter (isRow opts) cs)"
    and "filter (\<lambda>c. \<not> isCell opts c) (children row) = []"
proof -
  have "List.map_filter (check_row opts (table_columns opts (filter (isRow opts) cs)))
          (filter (isRow opts) cs) = []"
    using assms(1) by (simp add: Let_def split: if_splits)
  then have "check_row opts (table_columns opts (filter (isRow opts) cs)) row = None"
    using assms(2,3) by (auto simp: List.map_filter_def filter_empty_conv)
  then show "countCells opts row = table_columns opts (filter (isRow opts) cs)"
    and "filter (\<lambda>c. \<not> isCell opts c) (children row) = []"
    by (auto simp: check_row_def Let_def split: if_splits)
qed

lemma validate4_None:
  assumes "validate_tablesContainOnlyRows opts n (Elem t k d cs) = Inr None"
  shows "cs \<noteq> []" and "\<forall>c \<in> set cs. isRow opts c"
  using assms by (auto simp: Let_def filter_empty_conv split: if_splits)

lemma width_at_fixpoint:
  assumes fp: "find_violation opts n doc = Inr None"
    and T: "T \<in> set (all_nodes doc)" and tab: "isTable opts T"
  shows "(\<forall>row \<in> set (filter (isRow opts) (children T)).
            countCells opts row = table_columns opts (filter (isRow opts) (children T)))
       \<and> length_of (get_align (data_of T))
           = Some (table_columns opts (filter (isRow opts) (children T)))"
proof -
  obtain t k d cs where Teq: "T = Elem t k d cs"
    using tab by (cases T) (auto simp: isTable_def)
  have cr: "check_rules opts n makeSchema T = Inr None"
    using find_violation_None(1)[OF fp T] by (simp add: check_node_None)
  have m: "match_rule opts TablesContainOnlyRows T" "match_rule opts RowsContainRequiredColumns T"
     "match_rule opts TableContainAlignData T"
    using tab by (simp_all add: isTable_def)
  have v4: "validate_tablesContainOnlyRows opts n T = Inr None"
    using check_rules_None[OF cr _ m(1)] by (simp add: makeSchema_def)
  have v5: "validate_rowsContainRequiredColumns opts T = Inr None"
    using check_rules_None[OF cr _ m(2)] by (simp add: makeSchema_def)
  have v6: "validate_tableContainAlignData T = Inr None"
    using check_rules_None[OF cr _ m(3)] by (simp add: makeSchema_def)
  have ne: "cs \<noteq> []" and rows: "\<forall>c \<in> set cs. isRow opts c"
    using validate4_None[OF v4[unfolded Teq]] by auto
  have all: "filter (isRow opts) cs = cs" using rows by simp
  have cnt: "\<And>row. row \<in> set cs \<Longrightarrow> countCells opts row = table_columns opts cs"
    using validate5_None(1)[OF v5[unfolded Teq]] rows all by auto
  obtain r rest where cs: "cs = r # rest" using ne by (cases cs) auto
  have rrow: "isRow opts r" using rows cs by simp
  then obtain t' k' d' rs where r: "r = Elem t' k' d' rs"
    by (cases r) (auto simp: isRow_def)
  have "filter (\<lambda>c. \<not> isCell opts c) (children r) = []"
    using validate5_None(2)[OF v5[unfolded Teq], of r] rrow cs by simp
  then have "countCells opts r = length rs"
    using r by (simp add: countCells_def filter_empty_conv)
  moreover have "length_of (get_align d) = Some (length rs)"
    using v6 unfolding Teq cs r by (simp add: Let_def split: if_splits)
  ultimately have "length_of (get_align d) = Some (table_columns opts cs)"
    using cnt[of r] cs by simp
  then show ?thesis using cnt all Teq by simp
qed

text \<open>A run of the engine that returns a change returns one at a fixpoint.\<close>

lemma normalize_doc_fixpoint:
  "normalize_doc opts fuel ch = Inr ch' \<Longrightarrow> find_violation opts (next_key ch') (document ch') = Inr None"
proof (induction fuel arbitrary: ch)
  case 0 then show ?case by simp
next
  case (Suc fuel)
  show ?case
  proof (cases "find_violation opts (next_key ch) (document ch)")
    case (Inl e) then show ?thesis using Suc.prems by simp
  next
    case (Inr v)
    show ?thesis
    proof (cases v)
      case None then show ?thesis using Suc.prems Inr by simp
    next
      case (Some xrv)
      obtain x r w where xrv: "xrv = (x, r, w)" by (cases xrv) auto
      show ?thesis
      proof (cases "normalize_rule opts r (ch\<lparr>next_key := next_key ch + keys_drawn w\<rparr>) x w")
        case (Inl e) then show ?thesis using Suc.prems Inr Some xrv by simp
      next
        case (Inr ch1)
        then have "normalize_doc opts fuel ch1 = Inr ch'"
          using Suc.prems \<open>find_violation opts (next_key ch) (document ch) = Inr v\<close> Some xrv by simp
        then show ?thesis by (rule Suc.IH)
      qed
    qed
  qed
qed

text \<open>
  The engine on the ragged table: the row rule pads the second row, then the alignment
  rule stores a vector of three tags, and the third step finds no violation.
\<close>

lemma normalize_ragged_run:
  "normalize_doc example_opts 3 \<lparr>document = ragged_doc, start_key = 3, next_key = 12\<rparr>
   = Inr \<lparr>document = Elem Document 0 [] [padded_table], start_key = 3, next_key = 16\<rparr>"
  by code_simp



section \<open>The alignment rule's validation\<close>

text \<open>
  C10 (as amended). The alignment rule's validation reads the node list of the table's
  first child without a guard. It fails on a table with no children and on a table whose
  first child is a text leaf (which has no node list); for every table whose first child
  is an element it evaluates to no violation or to a violation payload.
\<close>

theorem validate_tableContainAlignData_total:
  "validate_tableContainAlignData (Elem t k d []) = Inl TypeError
   \<and> validate_tableContainAlignData (Elem t k d (Text k' s # rest)) = Inl TypeError
   \<and> (validate_tableContainAlignData (Elem t k d (Elem t' k' d' rs # rest)) = Inr None
      \<or> validate_tableContainAlignData (Elem t k d (Elem t' k' d' rs # rest))
          = Inr (Some (BadAlign (get_align d) (length rs))))"
  by (simp add: Let_def)

text \<open>
  The claim as stated fails: a table with one child, a text leaf, makes the validation
  raise.
\<close>

theorem validate_tableContainAlignData_text_child:
  "isTable example_opts text_table \<and> length (children text_table) = 1
   \<and> validate_tableContainAlignData text_table = Inl TypeError"
  by (simp add: text_table_def isTable_def example_opts_def)

lemma length_createAlign: "length (createAlign w e) = w"
  by (simp add: createAlign_def)

lemma nth_createAlign:
  "i < w \<Longrightarrow> createAlign w e ! i
     = (if i < length (base_entries e) then base_entries e ! i else Some ADefault)"
  by (simp add: createAlign_def)

lemma get_align_update: "get_align (AList.update ''align'' v d) = v"
  by (simp add: get_align_def update_conv')

lemma map_of_update_other: "key \<noteq> ''align'' \<Longrightarrow> map_of (AList.update ''align'' v d) key = map_of d key"
  by (simp add: update_conv')

text \<open>
  A table without an alignment entry is always reported: the default that the rule reads
  in its place is the collection library's list, which has no \<open>length\<close>, and the
  comparison of \<open>undefined\<close> with the number of columns fails.
\<close>

lemma alignment_rule_missing_entry:
  "map_of d ''align'' = None
   \<Longrightarrow> validate_tableContainAlignData (Elem t k d (Elem t' k' d' rs # rest))
         = Inr (Some (BadAlign EmptyList (length rs)))"
  by (simp add: get_align_def)

text \<open>
  C7 (as amended). On a table whose first child is an element, the alignment rule reports
  a violation exactly when the length of the alignment vector differs from the number of
  children of the first child (a stored value without a length, or no stored value,
  differs from every number); that number is the first row's cell count whenever the
  first child holds only cells, as the row rule ensures. Its normalize replaces the
  alignment vector by one of that width, in which every position below the old vector's
  length keeps its old tag and every remaining position holds the default tag, and it
  leaves every other entry of the table's data as it was.
\<close>

theorem alignment_rule_behaviour:
  assumes g: "getNode k (document ch) = Some (Elem t k d (Elem t' k' d' rs # rest))"
  shows "validate_tableContainAlignData (Elem t k d (Elem t' k' d' rs # rest))
           = (if length_of (get_align d) = Some (length rs) then Inr None
              else Inr (Some (BadAlign (get_align d) (length rs))))
       \<and> ((\<forall>c \<in> set rs. isCell opts c) \<longrightarrow> countCells opts (Elem t' k' d' rs) = length rs)
       \<and> (\<exists>v. normalize_tableContainAlignData ch (Elem t k d (Elem t' k' d' rs # rest))
                 (get_align d) (length rs)
               = Inr (ch\<lparr>document :=
                        update_node k
                          (\<lambda>_. Elem t k (AList.update ''align'' (Vec v) d) (Elem t' k' d' rs # rest))
                          (document ch)\<rparr>)
            \<and> get_align (AList.update ''align'' (Vec v) d) = Vec v
            \<and> (\<forall>key. key \<noteq> ''align'' \<longrightarrow> map_of (AList.update ''align'' (Vec v) d) key = map_of d key)
            \<and> length v = length rs
            \<and> (\<forall>i < length rs.
                  v ! i = (if i < length (base_entries (Some (get_align d)))
                           then base_entries (Some (get_align d)) ! i else Some ADefault)))"
proof (intro conjI)
  show "validate_tableContainAlignData (Elem t k d (Elem t' k' d' rs # rest))
           = (if length_of (get_align d) = Some (length rs) then Inr None
              else Inr (Some (BadAlign (get_align d) (length rs))))"
    by (simp add: Let_def)
  show "(\<forall>c \<in> set rs. isCell opts c) \<longrightarrow> countCells opts (Elem t' k' d' rs) = length rs"
    by (simp add: countCells_def)
  let ?v = "createAlign (length rs) (Some (get_align d))"
  have sp: "set_props None (Some (AList.update ''align'' (Vec ?v) d)) (Elem t k d (Elem t' k' d' rs # rest))
      = Inr (Elem t k (AList.update ''align'' (Vec ?v) d) (Elem t' k' d' rs # rest))"
    by (cases t) simp_all
  have "normalize_tableContainAlignData ch (Elem t k d (Elem t' k' d' rs # rest))
                 (get_align d) (length rs)
               = Inr (ch\<lparr>document :=
                        update_node k
                          (\<lambda>_. Elem t k (AList.update ''align'' (Vec ?v) d) (Elem t' k' d' rs # rest))
                          (document ch)\<rparr>)"
    unfolding normalize_tableContainAlignData_def setNodeByKey_def
    by (simp add: g sp del: set_props.simps)
  then show "\<exists>v. normalize_tableContainAlignData ch (Elem t k d (Elem t' k' d' rs # rest))
                 (get_align d) (length rs)
               = Inr (ch\<lparr>document :=
                        update_node k
                          (\<lambda>_. Elem t k (AList.update ''align'' (Vec v) d) (Elem t' k' d' rs # rest))
                          (document ch)\<rparr>)
            \<and> get_align (AList.update ''align'' (Vec v) d) = Vec v
            \<and> (\<forall>key. key \<noteq> ''align'' \<longrightarrow> map_of (AList.update ''align'' (Vec v) d) key = map_of d key)
            \<and> length v = length rs
            \<and> (\<forall>i < length rs.
                  v ! i = (if i < length (base_entries (Some (get_align d)))
                           then base_entries (Some (get_align d)) ! i else Some ADefault))"
    by (intro exI[of _ ?v])
       (simp add: get_align_update map_of_update_other length_createAlign nth_createAlign)
qed

text \<open>
  The theorem at a table of two columns whose vector holds one tag: the rule reports the
  violation, and the repaired vector keeps the tag and gains a default one.
\<close>

theorem alignment_rule_behaviour_witness:
  "getNode 1 (Elem Document 0 [] [two_col_table [(''align'', Vec [Some ALeft]), (''x'', Obj [])]])
     = Some (two_col_table [(''align'', Vec [Some ALeft]), (''x'', Obj [])])
   \<and> validate_tableContainAlignData (two_col_table [(''align'', Vec [Some ALeft]), (''x'', Obj [])])
       = Inr (Some (BadAlign (Vec [Some ALeft]) 2))
   \<and> normalize_tableContainAlignData
         \<lparr>document = Elem Document 0 [] [two_col_table [(''align'', Vec [Some ALeft]), (''x'', Obj [])]],
          start_key = 3, next_key = 7\<rparr>
         (two_col_table [(''align'', Vec [Some ALeft]), (''x'', Obj [])]) (Vec [Some ALeft]) 2
       = Inr \<lparr>document = Elem Document 0 []
                 [two_col_table [(''align'', Vec [Some ALeft, Some ADefault]), (''x'', Obj [])]],
              start_key = 3, next_key = 7\<rparr>"
proof -
  have g: "getNode 1 (document \<lparr>document = Elem Document 0 []
                [two_col_table [(''align'', Vec [Some ALeft]), (''x'', Obj [])]],
              start_key = 3, next_key = 7\<rparr>)
         = Some (Elem (Block ''table'') 1 [(''align'', Vec [Some ALeft]), (''x'', Obj [])]
                  (Elem (Block ''table_row'') 2 [] [cell_of 3 4 ''a'', cell_of 5 6 ''b''] # []))"
    by (simp add: two_col_table_def)
  have ca: "createAlign 2 (Some (Vec [Some ALeft])) = [Some ALeft, Some ADefault]"
    by code_simp
  show ?thesis
    using alignment_rule_behaviour[OF g, of example_opts]
    by (simp add: two_col_table_def get_align_def ca
        normalize_tableContainAlignData_def setNodeByKey_def)
qed

text \<open>
  The claim as stated fails. In this table the alignment vector has length 1 and the
  first row has one cell (next to a paragraph), yet the rule reports a violation, because
  it counts the row's two children.
\<close>

theorem alignment_rule_counts_children:
  "length_of (get_align (data_of mixed_row_table))
     = Some (countCells example_opts (hd (filter (isRow example_opts) (children mixed_row_table))))
   \<and> validate_tableContainAlignData mixed_row_table
       = Inr (Some (BadAlign (Vec [Some ADefault]) 2))"
  by (simp add: mixed_row_table_def cell_of_def example_opts_def isRow_def isCell_def
      countCells_def get_align_def)

section \<open>Idempotence of the rules\<close>

lemma table_columns_Max:
  "table_columns opts rows = Max (insert 1 (countCells opts ` set rows))"
proof -
  have "\<And>a. foldl (\<lambda>count row. max count (countCells opts row)) a rows
          = Max (insert a (countCells opts ` set rows))"
  proof (induction rows)
    case Nil then show ?case by simp
  next
    case (Cons r rows)
    have "Max (insert (max a (countCells opts r)) (countCells opts ` set rows))
        = Max (insert a (insert (countCells opts r) (countCells opts ` set rows)))"
    proof (cases "set rows = {}")
      case True then show ?thesis by simp
    next
      case False
      then have "countCells opts ` set rows \<noteq> {}" by simp
      then show ?thesis by (simp add: Max_insert max.assoc)
    qed
    then show ?case using Cons by simp
  qed
  then show ?thesis by (simp add: table_columns_def)
qed

lemma map_filter_empty: "List.map_filter f xs = [] \<longleftrightarrow> (\<forall>x \<in> set xs. f x = None)"
  by (induction xs) (auto simp: List.map_filter_def)

lemma validate1_inv:
  "match_rule opts NoBlocksWithinCell x \<Longrightarrow> rule_invariant opts NoBlocksWithinCell x
     \<Longrightarrow> validate_rule opts n NoBlocksWithinCell x = Inr None"
  by (cases x) (auto simp: filter_empty_conv)

lemma validate2_inv:
  "match_rule opts CellsWithinTable x \<Longrightarrow> rule_invariant opts CellsWithinTable x
     \<Longrightarrow> validate_rule opts n CellsWithinTable x = Inr None"
  by (cases x) (auto simp: filter_empty_conv isCell_def)

lemma validate3_inv:
  "match_rule opts RowsWithinTable x \<Longrightarrow> rule_invariant opts RowsWithinTable x
     \<Longrightarrow> validate_rule opts n RowsWithinTable x = Inr None"
  by (cases x) (auto simp: filter_empty_conv isRow_def)

lemma validate4_inv:
  assumes m: "match_rule opts TablesContainOnlyRows x"
    and inv: "rule_invariant opts TablesContainOnlyRows x"
  shows "validate_rule opts n TablesContainOnlyRows x = Inr None"
proof (cases x)
  case (Text k s) then show ?thesis using m by simp
next
  case (Elem t k d cs)
  from inv have a: "\<forall>c \<in> set cs. isRow opts c" and b: "cs \<noteq> []" using Elem by auto
  have "filter (\<lambda>c. \<not> isRow opts c) cs = []" using a by (simp add: filter_empty_conv)
  then show ?thesis using Elem b by simp
qed

lemma inv5_D:
  assumes inv: "rule_invariant opts RowsContainRequiredColumns x"
    and r: "row \<in> set (children x)" "isRow opts row"
  shows "countCells opts row = table_columns opts (filter (isRow opts) (children x))"
    and "\<forall>c \<in> set (children row). isCell opts c"
proof -
  have "\<not> (\<exists>row \<in> set (filter (isRow opts) (children x)).
            countCells opts row \<noteq> Max (insert 1 (countCells opts ` set (filter (isRow opts) (children x))))
            \<or> (\<exists>c \<in> set (children row). \<not> isCell opts c))"
    using inv unfolding rule_invariant.simps .
  moreover have "row \<in> set (filter (isRow opts) (children x))" using r by simp
  ultimately have a: "countCells opts row = Max (insert 1 (countCells opts ` set (filter (isRow opts) (children x))))"
     and b: "\<forall>c \<in> set (children row). isCell opts c"
    by blast+
  show "countCells opts row = table_columns opts (filter (isRow opts) (children x))"
    using a by (simp only: table_columns_Max)
  show "\<forall>c \<in> set (children row). isCell opts c" by (rule b)
qed

lemma validate5_inv:
  assumes m: "match_rule opts RowsContainRequiredColumns x"
    and inv: "rule_invariant opts RowsContainRequiredColumns x"
  shows "validate_rule opts n RowsContainRequiredColumns x = Inr None"
proof (cases x)
  case (Text k s) then show ?thesis using m by simp
next
  case (Elem t k d cs)
  have "\<forall>row \<in> set (filter (isRow opts) cs).
          check_row opts (table_columns opts (filter (isRow opts) cs)) row = None"
  proof
    fix row assume r: "row \<in> set (filter (isRow opts) cs)"
    then have "row \<in> set (children x)" "isRow opts row" using Elem by simp_all
    from inv5_D[OF inv this]
    have "countCells opts row = table_columns opts (filter (isRow opts) cs)"
      and "\<forall>c \<in> set (children row). isCell opts c"
      using Elem by simp_all
    then show "check_row opts (table_columns opts (filter (isRow opts) cs)) row = None"
      by (simp add: check_row_def filter_empty_conv)
  qed
  then have "List.map_filter (check_row opts (table_columns opts (filter (isRow opts) cs)))
               (filter (isRow opts) cs) = []"
    by (simp only: map_filter_empty)
  then show ?thesis using Elem by simp
qed

lemma validate6_inv:
  assumes "match_rule opts TableContainAlignData x" 
    and i6: "rule_invariant opts TableContainAlignData x"
    and i4: "rule_invariant opts TablesContainOnlyRows x"
    and i5: "rule_invariant opts RowsContainRequiredColumns x"
  shows "validate_rule opts n TableContainAlignData x = Inr None"
proof (cases x)
  case (Text k s) then show ?thesis using assms(1) by simp
next
  case (Elem t k d cs)
  have a: "\<forall>c \<in> set cs. isRow opts c" and b: "cs \<noteq> []" using i4 Elem by auto
  then obtain r rest where cs: "cs = r # rest" by (cases cs) auto
  have rr: "isRow opts r" using a cs by simp
  then obtain t' k' d' rs where r: "r = Elem t' k' d' rs" by (cases r) (auto simp: isRow_def)
  have "r \<in> set (children x)" using Elem cs by simp
  from inv5_D(2)[OF i5 this rr]
  have "\<forall>c \<in> set rs. isCell opts c" using r by simp
  then have "countCells opts r = length rs" using r by (simp add: countCells_def)
  moreover have "length_of (get_align d) = Some (countCells opts r)"
    using i6 Elem cs rr by simp
  ultimately show ?thesis using Elem cs r by simp
qed

lemma normalize_two_cells_run:
  "normalize_doc example_opts 3 \<lparr>document = two_cells_doc, start_key = 1, next_key = 5\<rparr>
   = Inr \<lparr>document = Elem Document 0 []
         [Elem (Block ''table'') 7 [(''align'', Vec [Some ADefault])]
           [Elem (Block ''table_row'') 5 [] [cell_of 1 2 ''a'']],
          Elem (Block ''table'') 8 [(''align'', Vec [Some ADefault])]
           [Elem (Block ''table_row'') 6 [] [cell_of 3 4 ''b'']]],
        start_key = 1, next_key = 9\<rparr>"
  by code_simp



text \<open>
  On a cell that holds a block without children the cell-content rule reports the block
  and its normalize makes no edit; the engine finds the same violation again at every
  step and never returns a tree, whatever its budget.
\<close>

lemma hollow_step:
  "find_violation example_opts 5 hollow_doc
     = Inr (Some (hollow_cell, NoBlocksWithinCell, NestedBlocks [Elem (Block ''paragraph'') 4 [] []]))"
  by code_simp

lemma hollow_never_converges:
  "normalize_doc example_opts fuel \<lparr>document = hollow_doc, start_key = 3, next_key = 5\<rparr>
     = Inl NotConverged"
proof (induction fuel)
  case 0 then show ?case by simp
next
  case (Suc fuel)
  have n: "normalize_rule example_opts NoBlocksWithinCell
         \<lparr>document = hollow_doc, start_key = 3, next_key = 5\<rparr> hollow_cell
         (NestedBlocks [Elem (Block ''paragraph'') 4 [] []])
       = Inr \<lparr>document = hollow_doc, start_key = 3, next_key = 5\<rparr>"
    by (simp add: normalize_noBlocksWithinCell_def)
  show ?case using Suc hollow_step n by simp
qed


section \<open>Commands\<close>

text \<open>
  C3 (defect in the code). setColumnAlign stores the new data as an object whose only key
  \<open>align\<close> holds the table's whole old data with the new vector inside it. On a table of
  two columns with the vector (default, default), setting column 0 to center leaves the
  table's \<open>align\<close> entry holding a nested object instead of the vector (center, default).
\<close>

theorem setColumnAlign_nests_data:
  "setColumnAlign example_opts
     \<lparr>document = Elem Document 0 [] [two_col_table [(''align'', Vec [Some ADefault, Some ADefault])]],
      start_key = 3, next_key = 7\<rparr> (Some ACenter) (Some 0)
   = Inr \<lparr>document = Elem Document 0 []
            [two_col_table [(''align'', Obj [(''align'', Vec [Some ACenter, Some ADefault])])]],
          start_key = 3, next_key = 7\<rparr>"
  by (simp add: setColumnAlign_def TablePosition_create_def two_col_table_def cell_of_def
      example_opts_def isTable_def isRow_def isCell_def getWidth_def table_rows_def
      countCells_def createAlign_def array_set_def setNodeByKey_def Let_def)

lemma onUpDown_cases:
  assumes pos: "TablePosition_create opts (document ch) (start_key ch) = Inr pos"
  shows "(isFirstRow opts pos \<and> ev_key ev = ''UpArrow'' \<or> isLastRow opts pos \<and> ev_key ev \<noteq> ''UpArrow''
          \<longrightarrow> onUpDown ev ch opts = Inr (ev, ch))
       \<and> (\<not> (isFirstRow opts pos \<and> ev_key ev = ''UpArrow'' \<or> isLastRow opts pos \<and> ev_key ev \<noteq> ''UpArrow'')
          \<longrightarrow> onUpDown ev ch opts
              = (case moveSelectionBy opts ch 0 (if ev_key ev = ''UpArrow'' then - 1 else 1) of
                   Inl e \<Rightarrow> Inl e
                 | Inr ch' \<Rightarrow> Inr (ev\<lparr>defaultPrevented := True\<rparr>, ch')))"
  by (simp add: onUpDown_def pos Let_def)

lemma index_in_range: "index_in k xs < int (length xs)"
  by (induction xs) (auto simp: Let_def)

text \<open>
  C9 (as amended). The handler takes the direction to be up when the key of the event is
  the up arrow and down otherwise. For a selection inside a table (its row among the
  table's rows, its cell among the row's cells) every row of which has a cell at the
  selection's column, the handler returns the event and the change untouched exactly when
  the selection is in the first row and the direction is up, or in the last row and the
  direction is down; in every other case it marks the event as default-prevented and
  moves the selection to the cell of the same column in the row above or below.
\<close>

theorem onUpDown_behaviour:
  assumes pos: "TablePosition_create opts (document ch) (start_key ch) = Inr pos"
    and r0: "0 \<le> getRowIndex opts pos" and c0: "0 \<le> getColumnIndex opts pos"
    and col: "\<forall>row \<in> set (table_rows opts pos). getColumnIndex opts pos < int (countCells opts row)"
  shows "if isFirstRow opts pos \<and> ev_key ev = ''UpArrow'' \<or> isLastRow opts pos \<and> ev_key ev \<noteq> ''UpArrow''
         then onUpDown ev ch opts = Inr (ev, ch)
         else onUpDown ev ch opts
              = Inr (ev\<lparr>defaultPrevented := True\<rparr>,
                     ch\<lparr>start_key :=
                          key_of (filter (isCell opts)
                                   (children (table_rows opts pos
                                      ! nat (getRowIndex opts pos
                                             + (if ev_key ev = ''UpArrow'' then - 1 else 1))))
                                  ! nat (getColumnIndex opts pos))\<rparr>)"
proof (cases "isFirstRow opts pos \<and> ev_key ev = ''UpArrow'' \<or> isLastRow opts pos \<and> ev_key ev \<noteq> ''UpArrow''")
  case True
  then show ?thesis using onUpDown_cases[OF pos, of ev] by simp
next
  case False
  let ?dy = "if ev_key ev = ''UpArrow'' then - 1 else (1::int)"
  let ?r = "getRowIndex opts pos"
  let ?rows = "table_rows opts pos"
  have rlt: "?r < int (length ?rows)"
    unfolding getRowIndex_def by (rule index_in_range)
  have tr: "0 \<le> ?r + ?dy \<and> nat (?r + ?dy) < length ?rows"
    using False r0 rlt by (auto simp: isFirstRow_def isLastRow_def split: if_splits)
  then have row: "nth_int ?rows (?r + ?dy) = Some (?rows ! nat (?r + ?dy))"
    by (simp add: nth_int_def)
  let ?row = "?rows ! nat (?r + ?dy)"
  have "?row \<in> set ?rows" using tr by simp
  then have "getColumnIndex opts pos < int (countCells opts ?row)" using col by blast
  then have "nat (getColumnIndex opts pos) < length (filter (isCell opts) (children ?row))"
    using c0 by (simp add: countCells_def)
  then have cell: "nth_int (filter (isCell opts) (children ?row)) (getColumnIndex opts pos + 0)
      = Some (filter (isCell opts) (children ?row) ! nat (getColumnIndex opts pos))"
    using c0 by (simp add: nth_int_def)
  have "moveSelectionBy opts ch 0 ?dy
      = Inr (ch\<lparr>start_key := key_of (filter (isCell opts) (children ?row) ! nat (getColumnIndex opts pos))\<rparr>)"
    unfolding moveSelectionBy_def using pos row cell by simp
  then have "onUpDown ev ch opts
      = Inr (ev\<lparr>defaultPrevented := True\<rparr>,
             ch\<lparr>start_key := key_of (filter (isCell opts) (children ?row) ! nat (getColumnIndex opts pos))\<rparr>)"
    using onUpDown_cases[OF pos, of ev] False by simp
  then show ?thesis using False by (simp only: if_False)
qed

text \<open>The theorem at the second row of a two by two table, moving up.\<close>

theorem onUpDown_behaviour_witness:
  "TablePosition_create example_opts grid_doc 10
     = Inr \<lparr>tp_table = grid_table, tp_row = grid_row2, tp_cell = cell_of 10 11 ''d''\<rparr>
   \<and> getRowIndex example_opts
        \<lparr>tp_table = grid_table, tp_row = grid_row2, tp_cell = cell_of 10 11 ''d''\<rparr> = 1
   \<and> getColumnIndex example_opts
        \<lparr>tp_table = grid_table, tp_row = grid_row2, tp_cell = cell_of 10 11 ''d''\<rparr> = 1
   \<and> onUpDown \<lparr>ev_key = ''UpArrow'', defaultPrevented = False\<rparr>
        \<lparr>document = grid_doc, start_key = 10, next_key = 12\<rparr> example_opts
      = Inr (\<lparr>ev_key = ''UpArrow'', defaultPrevented = True\<rparr>,
             \<lparr>document = grid_doc, start_key = 5, next_key = 12\<rparr>)"
proof -
  let ?pos = "\<lparr>tp_table = grid_table, tp_row = grid_row2, tp_cell = cell_of 10 11 ''d''\<rparr>"
  let ?ch = "\<lparr>document = grid_doc, start_key = 10, next_key = 12\<rparr>"
  have p: "TablePosition_create example_opts (document ?ch) (start_key ?ch) = Inr ?pos"
    by (simp add: TablePosition_create_def grid_doc_def grid_table_def grid_row1_def
        grid_row2_def cell_of_def example_opts_def isTable_def isRow_def isCell_def Let_def)
  have r: "getRowIndex example_opts ?pos = 1"
    by (simp add: getRowIndex_def table_rows_def grid_table_def grid_row1_def grid_row2_def
        example_opts_def isRow_def)
  have c: "getColumnIndex example_opts ?pos = 1"
    by (simp add: getColumnIndex_def grid_row2_def cell_of_def example_opts_def isCell_def)
  have w: "\<forall>row \<in> set (table_rows example_opts ?pos).
             getColumnIndex example_opts ?pos < int (countCells example_opts row)"
    unfolding c
    by (simp add: table_rows_def grid_table_def grid_row1_def grid_row2_def cell_of_def
        example_opts_def isRow_def isCell_def countCells_def)
  have r0: "0 \<le> getRowIndex example_opts ?pos" and c0: "0 \<le> getColumnIndex example_opts ?pos"
    using r c by simp_all
  show ?thesis
    using onUpDown_behaviour[OF p r0 c0 w, of "\<lparr>ev_key = ''UpArrow'', defaultPrevented = False\<rparr>"]
      p r c
    by (simp add: isFirstRow_def isLastRow_def table_rows_def grid_table_def grid_row1_def
        grid_row2_def cell_of_def example_opts_def isRow_def isCell_def)
qed

text \<open>
  The claim as stated fails. In this table the first row has one cell and the second has
  two. With the selection in the second cell of the second row and the up arrow pressed,
  the selection is not in the first row, so the handler does not decline; it asks for
  the cell of column 1 in the first row, which does not exist, and fails: the selection
  is not moved.
\<close>

theorem onUpDown_ragged_table:
  "TablePosition_create example_opts uneven_doc 8
       = Inr \<lparr>tp_table = hd (children uneven_doc),
              tp_row = Elem (Block ''table_row'') 5 [] [cell_of 6 7 ''b'', cell_of 8 9 ''c''],
              tp_cell = cell_of 8 9 ''c''\<rparr>
   \<and> getRowIndex example_opts
       \<lparr>tp_table = hd (children uneven_doc),
        tp_row = Elem (Block ''table_row'') 5 [] [cell_of 6 7 ''b'', cell_of 8 9 ''c''],
        tp_cell = cell_of 8 9 ''c''\<rparr> = 1
   \<and> onUpDown \<lparr>ev_key = ''UpArrow'', defaultPrevented = False\<rparr>
        \<lparr>document = uneven_doc, start_key = 8, next_key = 10\<rparr> example_opts
      = Inl NotInTable"
  by code_simp

section \<open>Orphan cells\<close>

lemma validate_rule_None_indep:
  "validate_rule opts n r x = Inr None \<Longrightarrow> validate_rule opts m r x = Inr None"
  by (cases r; cases x) (simp_all add: Let_def split: if_splits)

lemma check_rules_None_indep:
  "check_rules opts n rs x = Inr None \<Longrightarrow> check_rules opts m rs x = Inr None"
proof (induction rs)
  case Nil then show ?case by simp
next
  case (Cons r rs)
  show ?case
  proof (cases "match_rule opts r x")
    case False then show ?thesis using Cons by simp
  next
    case True
    then have "validate_rule opts n r x = Inr None" and "check_rules opts n rs x = Inr None"
      using Cons.prems by (auto split: sum.splits option.splits)
    then show ?thesis using True Cons.IH validate_rule_None_indep[of opts n r x m] by simp
  qed
qed

lemma check_node_None_indep:
  "check_node opts n x = Inr None \<Longrightarrow> check_node opts m x = Inr None"
  using check_rules_None_indep by (simp add: check_node_None)

lemma find_violation_None_indep:
  "find_violation opts n x = Inr None \<Longrightarrow> find_violation opts m x = Inr None"
  "find_violation_list opts n xs = Inr None \<Longrightarrow> find_violation_list opts m xs = Inr None"
proof (induction opts n x and opts n xs rule: find_violation_find_violation_list.induct)
  case (1 opts n k s)
  then show ?case using check_node_None_indep by simp
next
  case (2 opts n t k d cs)
  from "2.prems" have a: "find_violation_list opts n cs = Inr None"
    and b: "check_node opts n (Elem t k d cs) = Inr None"
    by (auto split: sum.splits option.splits)
  show ?case using "2.IH"[OF a] check_node_None_indep[OF b] by simp
next
  case (3 opts n)
  then show ?case by simp
next
  case (4 opts n c cs)
  from "4.prems" have a: "find_violation opts n c = Inr None"
    and b: "find_violation_list opts n cs = Inr None"
    by (auto split: sum.splits option.splits)
  show ?case using "4.IH"(1)[OF a] "4.IH"(2)[OF a refl b] by simp
qed

lemma check_row_wrapper:
  assumes "typeCell opts \<noteq> typeRow opts" "typeRow opts \<noteq> typeTable opts"
    and "type_of c = Some (typeCell opts)"
  shows "check_node opts m (Elem (Block (typeRow opts)) a [] [c]) = Inr None"
  using assms by (simp add: check_node_def makeSchema_def)

lemma check_table_wrapper:
  assumes "typeCell opts \<noteq> typeRow opts" "typeRow opts \<noteq> typeTable opts"
    "typeCell opts \<noteq> typeTable opts"
    and "type_of c = Some (typeCell opts)"
  shows "check_node opts m
           (Elem (Block (typeTable opts)) b [(''align'', Vec [Some ADefault])]
              [Elem (Block (typeRow opts)) a [] [c]]) = Inr None"
  using assms
  by (simp add: check_node_def makeSchema_def isRow_def isCell_def table_columns_def
      countCells_def check_row_def List.map_filter_def get_align_def)

text \<open>
  C5 (as amended). For a document whose children are two cells (each free of violations
  inside, with different keys below the key counter, the three table types being
  different), normalisation reaches its fixpoint after two repairs and produces two
  tables in the order of the cells: each table wraps a single row that wraps one of the
  original cells, and each table's alignment vector has length 1 and holds the default
  tag.
\<close>

theorem orphan_cells_normalized:
  assumes types: "typeCell opts \<noteq> typeRow opts" "typeRow opts \<noteq> typeTable opts"
      "typeCell opts \<noteq> typeTable opts"
    and c1: "c1 = Elem (Block (typeCell opts)) k1 d1 cs1"
    and c2: "c2 = Elem (Block (typeCell opts)) k2 d2 cs2"
    and v1: "find_violation opts n c1 = Inr None"
    and v2: "find_violation opts n c2 = Inr None"
    and ks: "k1 \<noteq> k2" "k1 < n" "k2 < n"
  shows "normalize_doc opts (Suc (Suc (Suc fuel)))
           \<lparr>document = Elem Document k d [c1, c2], start_key = s, next_key = n\<rparr>
         = Inr \<lparr>document = Elem Document k d
                  [Elem (Block (typeTable opts)) (n + 2) [(''align'', Vec [Some ADefault])]
                     [Elem (Block (typeRow opts)) n [] [c1]],
                   Elem (Block (typeTable opts)) (n + 3) [(''align'', Vec [Some ADefault])]
                     [Elem (Block (typeRow opts)) (n + 1) [] [c2]]],
                start_key = s, next_key = n + 4\<rparr>"
proof -
  let ?r1 = "Elem (Block (typeRow opts)) n [] [c1]"
  let ?r2 = "Elem (Block (typeRow opts)) (n + 1) [] [c2]"
  let ?t1 = "Elem (Block (typeTable opts)) (n + 2) [(''align'', Vec [Some ADefault])] [?r1]"
  let ?t2 = "Elem (Block (typeTable opts)) (n + 3) [(''align'', Vec [Some ADefault])] [?r2]"
  have ty: "type_of c1 = Some (typeCell opts)" "type_of c2 = Some (typeCell opts)"
    using c1 c2 by simp_all
  have fv: "\<And>m. find_violation opts m c1 = Inr None" "\<And>m. find_violation opts m c2 = Inr None"
    using v1 v2 find_violation_None_indep(1) by blast+
  have fr: "\<And>m. find_violation opts m ?r1 = Inr None" "\<And>m. find_violation opts m ?r2 = Inr None"
    using fv check_row_wrapper[OF types(1,2)] ty by simp_all
  have ft: "\<And>m. find_violation opts m ?t1 = Inr None" "\<And>m. find_violation opts m ?t2 = Inr None"
    using fr check_table_wrapper[OF types] ty by simp_all
  \<comment> \<open>first step: the cell-containment rule fires on the document\<close>
  have s1: "find_violation opts n (Elem Document k d [c1, c2])
      = Inr (Some (Elem Document k d [c1, c2], CellsWithinTable, OrphanCells [c1, c2]))"
    using fv ty by (simp add: check_node_def makeSchema_def)
  have n1: "normalize_rule opts CellsWithinTable
              \<lparr>document = Elem Document k d [c1, c2], start_key = s, next_key = n\<rparr>
              (Elem Document k d [c1, c2]) (OrphanCells [c1, c2])
      = Inr \<lparr>document = Elem Document k d [?r1, ?r2], start_key = s, next_key = n + 2\<rparr>"
    using ks c1 c2 by (simp add: normalize_cellsWithinTable_def wrapBlockByKey_def wrap_child_def)
  \<comment> \<open>second step: the row-containment rule fires on the document\<close>
  have s2: "find_violation opts (n + 2) (Elem Document k d [?r1, ?r2])
      = Inr (Some (Elem Document k d [?r1, ?r2], RowsWithinTable, OrphanRows [?r1, ?r2]))"
    using fr types by (simp add: check_node_def makeSchema_def)
  have n2: "normalize_rule opts RowsWithinTable
              \<lparr>document = Elem Document k d [?r1, ?r2], start_key = s, next_key = n + 2\<rparr>
              (Elem Document k d [?r1, ?r2]) (OrphanRows [?r1, ?r2])
      = Inr \<lparr>document = Elem Document k d [?t1, ?t2], start_key = s, next_key = n + 4\<rparr>"
    by (simp add: normalize_rowsWithinTable_def wrapBlockByKey_def wrap_child_def createAlign_def)
  \<comment> \<open>third step: nothing is left to repair\<close>
  have s3: "find_violation opts (n + 4) (Elem Document k d [?t1, ?t2]) = Inr None"
    using ft types by (simp add: check_node_def makeSchema_def)
  show ?thesis
    using s1 n1 s2 n2 s3 by simp
qed

text \<open>The theorem at two cells holding the texts a and b.\<close>

theorem orphan_cells_normalized_witness:
  "find_violation example_opts 5 (cell_of 1 2 ''a'') = Inr None
   \<and> find_violation example_opts 5 (cell_of 3 4 ''b'') = Inr None
   \<and> normalize_doc example_opts (Suc (Suc (Suc 0)))
        \<lparr>document = Elem Document 0 [] [cell_of 1 2 ''a'', cell_of 3 4 ''b''],
         start_key = 1, next_key = 5\<rparr>
      = Inr \<lparr>document = Elem Document 0 []
                [Elem (Block ''table'') 7 [(''align'', Vec [Some ADefault])]
                   [Elem (Block ''table_row'') 5 [] [cell_of 1 2 ''a'']],
                 Elem (Block ''table'') 8 [(''align'', Vec [Some ADefault])]
                   [Elem (Block ''table_row'') 6 [] [cell_of 3 4 ''b'']]],
              start_key = 1, next_key = 9\<rparr>"
proof -
  have t: "typeCell example_opts \<noteq> typeRow example_opts"
      "typeRow example_opts \<noteq> typeTable example_opts"
      "typeCell example_opts \<noteq> typeTable example_opts"
    by (simp_all add: example_opts_def)
  have c1: "cell_of 1 2 ''a'' = Elem (Block (typeCell example_opts)) 1 [] [Text 2 ''a'']"
    and c2: "cell_of 3 4 ''b'' = Elem (Block (typeCell example_opts)) 3 [] [Text 4 ''b'']"
    by (simp_all add: cell_of_def example_opts_def)
  have v1: "find_violation example_opts 5 (cell_of 1 2 ''a'') = Inr None"
    and v2: "find_violation example_opts 5 (cell_of 3 4 ''b'') = Inr None"
    by (simp_all add: cell_of_def example_opts_def check_node_def makeSchema_def)
  show ?thesis
    using orphan_cells_normalized[OF t c1 c2 v1 v2, where k = 0 and d = "[]" and s = 1 and fuel = 0]
      v1 v2
    by (simp add: example_opts_def del: normalize_doc.simps)
qed

text \<open>
  The claim as stated fails: the two cells end in two tables of one column each, not in
  one table of one row and two columns.
\<close>

theorem orphan_cells_two_tables:
  "normalize_doc example_opts 4 \<lparr>document = two_cells_doc, start_key = 1, next_key = 5\<rparr>
   = Inr \<lparr>document = Elem Document 0 []
         [Elem (Block ''table'') 7 [(''align'', Vec [Some ADefault])]
           [Elem (Block ''table_row'') 5 [] [cell_of 1 2 ''a'']],
          Elem (Block ''table'') 8 [(''align'', Vec [Some ADefault])]
           [Elem (Block ''table_row'') 6 [] [cell_of 3 4 ''b'']]],
        start_key = 1, next_key = 9\<rparr>"
  by code_simp

section \<open>Lookups and updates in a tree with distinct keys\<close>

lemma keys_Text [simp]: "keys (Text k s) = [k]"
  by (simp add: keys_def)

lemma keys_Elem [simp]: "keys (Elem t k d cs) = k # concat (map keys cs)"
  by (simp add: keys_def map_concat comp_def cong: map_cong)

lemma keys_eq: "keys n = key_of n # desc_keys n"
  by (cases n) (simp_all add: desc_keys_def)

lemma key_of_in_keys: "key_of n \<in> set (keys n)"
  by (cases n) simp_all

lemma self_in_all_nodes [simp]: "n \<in> set (all_nodes n)"
  by (cases n) simp_all

lemma all_nodes_trans:
  "y \<in> set (all_nodes z) \<Longrightarrow> x \<in> set (all_nodes y) \<Longrightarrow> x \<in> set (all_nodes z)"
  by (induction z) auto

lemma keys_sub: assumes that: "x \<in> set (all_nodes n)" shows "set (keys x) \<subseteq> set (keys n)"
(*"x \<in> set (all_nodes n) \<Longrightarrow> *)
proof
  fix k assume "k \<in> set (keys x)"
  then obtain y where "y \<in> set (all_nodes x)" "key_of y = k" by (auto simp: keys_def)
  then show "k \<in> set (keys n)" using all_nodes_trans[of x n y] that by (force simp: keys_def)
qed

lemma child_in_all_nodes: "c \<in> set (children p) \<Longrightarrow> c \<in> set (all_nodes p)"
  by (cases p) (auto intro: bexI[of _ c])

lemma desc_keys_sub: "x \<in> set (all_nodes n) \<Longrightarrow> set (desc_keys x) \<subseteq> set (desc_keys n)"
proof (induction n)
  case (Text k s) then show ?case by simp
next
  case (Elem t k d cs)
  show ?case
  proof (cases "x = Elem t k d cs")
    case True then show ?thesis by simp
  next
    case False
    then obtain c where c: "c \<in> set cs" "x \<in> set (all_nodes c)" using Elem.prems by auto
    have "set (desc_keys x) \<subseteq> set (keys x)" by (auto simp: keys_eq)
    also have "\<dots> \<subseteq> set (keys c)" by (rule keys_sub[OF c(2)])
    also have "\<dots> \<subseteq> set (desc_keys (Elem t k d cs))" using c(1) by (auto simp: desc_keys_def)
    finally show ?thesis .
  qed
qed

lemma first_some_None_iff: "first_some xs = None \<longleftrightarrow> (\<forall>x \<in> set xs. x = None)"
  by (induction xs) (auto split: option.splits)

lemma first_some_Some: "first_some xs = Some y \<Longrightarrow> Some y \<in> set xs"
  by (induction xs) (auto split: option.splits)

lemma first_some_unique:
  "c \<in> set cs \<Longrightarrow> (\<And>c'. c' \<in> set cs \<Longrightarrow> c' \<noteq> c \<Longrightarrow> f c' = None) \<Longrightarrow> first_some (map f cs) = f c"
proof (induction cs)
  case Nil then show ?case by simp
next
  case (Cons a cs)
  show ?case
  proof (cases "a = c")
    case True
    show ?thesis
    proof (cases "f c")
      case None
      have "\<forall>x \<in> set (map f cs). x = None"
        using Cons.prems(2) None by (metis image_iff list.set_intros(2) set_map)
      then have "first_some (map f cs) = None" by (simp add: first_some_None_iff)
      then show ?thesis using True None by simp
    next
      case (Some y) then show ?thesis using True by simp
    qed
  next
    case False
    then have "f a = None" using Cons.prems(2)[of a] by simp
    moreover have "c \<in> set cs" using Cons.prems(1) False by auto
    ultimately show ?thesis using Cons.IH Cons.prems(2) by simp
  qed
qed

lemma distinct_concat_map_each:
  "distinct (concat (map f cs)) \<Longrightarrow> c \<in> set cs \<Longrightarrow> distinct (f c)"
  by (induction cs) auto

lemma distinct_concat_map_disj:
  "distinct (concat (map f cs)) \<Longrightarrow> c \<in> set cs \<Longrightarrow> c' \<in> set cs \<Longrightarrow> c \<noteq> c'
     \<Longrightarrow> set (f c) \<inter> set (f c') = {}"
  by (induction cs) auto

lemma getNode_None_iff: "getNode k n = None \<longleftrightarrow> k \<notin> set (keys n)"
  by (induction n) (auto simp: first_some_None_iff)

lemma getNode_Some: "getNode k n = Some x \<Longrightarrow> key_of x = k \<and> x \<in> set (all_nodes n)"
proof (induction n)
  case (Text k' s) then show ?case by (auto split: if_splits)
next
  case (Elem t k' d cs)
  show ?case
  proof (cases "k' = k")
    case True then show ?thesis using Elem.prems by auto
  next
    case False
    then have "first_some (map (getNode k) cs) = Some x"
      using Elem.prems by simp
    then have "Some x \<in> set (map (getNode k) cs)"
      by (rule first_some_Some)
    then obtain c where "c \<in> set cs" "getNode k c = Some x" by auto
    then show ?thesis using Elem.IH by auto
  qed
qed

lemma getNode_found:
  "distinct (keys n) \<Longrightarrow> x \<in> set (all_nodes n) \<Longrightarrow> getNode (key_of x) n = Some x"
proof (induction n)
  case (Text k s) then show ?case by auto
next
  case (Elem t k d cs)
  show ?case
  proof (cases "x = Elem t k d cs")
    case True then show ?thesis by simp
  next
    case False
    then obtain c where c: "c \<in> set cs" "x \<in> set (all_nodes c)" using Elem.prems(2) by auto
    have dc: "distinct (concat (map keys cs))" and kn: "k \<notin> set (concat (map keys cs))"
      using Elem.prems(1) by simp_all
    have kx: "key_of x \<in> set (keys c)" using c(2) by (simp add: keys_def)
    have "set (keys c) \<subseteq> set (concat (map keys cs))" using c(1) by auto
    then have ne: "key_of x \<noteq> k" using kn kx by blast
    have "first_some (map (getNode (key_of x)) cs) = getNode (key_of x) c"
    proof (rule first_some_unique[OF c(1)])
      fix c' assume "c' \<in> set cs" "c' \<noteq> c"
      then have "set (keys c') \<inter> set (keys c) = {}"
        using distinct_concat_map_disj[OF dc _ c(1)] by blast
      then have "key_of x \<notin> set (keys c')" using kx by blast
      then show "getNode (key_of x) c' = None" by (simp add: getNode_None_iff)
    qed
    also have "\<dots> = Some x"
      using Elem.IH[OF c(1) distinct_concat_map_each[OF dc c(1)] c(2)] .
    finally show ?thesis using ne by simp
  qed
qed

lemma getParent_None_iff: "getParent k n = None \<longleftrightarrow> k \<notin> set (desc_keys n)"
proof (induction n)
  case (Text k' s) then show ?case by (simp add: desc_keys_def)
next
  case (Elem t k' d cs)
  have "getParent k (Elem t k' d cs) = None
        \<longleftrightarrow> k \<notin> key_of ` set cs \<and> (\<forall>c \<in> set cs. getParent k c = None)"
    by (simp add: first_some_None_iff)
  also have "\<dots> \<longleftrightarrow> (\<forall>c \<in> set cs. k \<noteq> key_of c \<and> k \<notin> set (desc_keys c))"
    using Elem.IH by blast
  also have "\<dots> \<longleftrightarrow> (\<forall>c \<in> set cs. k \<notin> set (keys c))"
    by (simp add: keys_eq)
  also have "\<dots> \<longleftrightarrow> k \<notin> set (desc_keys (Elem t k' d cs))"
    by (simp add: desc_keys_def)
  finally show ?case .
qed

lemma getParent_Some:
  "getParent k n = Some p \<Longrightarrow> p \<in> set (all_nodes n) \<and> k \<in> key_of ` set (children p)"
proof (induction n)
  case (Text k' s) then show ?case by simp
next
  case (Elem t k' d cs)
  show ?case
  proof (cases "k \<in> key_of ` set cs")
    case True then show ?thesis using Elem.prems by auto
  next
    case False
    then have "first_some (map (getParent k) cs) = Some p"
      using Elem.prems by simp
    then have "Some p \<in> set (map (getParent k) cs)"
      by (rule first_some_Some)
    then obtain c where "c \<in> set cs" "getParent k c = Some p" by auto
    then show ?thesis using Elem.IH by auto
  qed
qed

lemma getParent_found:
  "distinct (keys n) \<Longrightarrow> p \<in> set (all_nodes n) \<Longrightarrow> c \<in> set (children p)
     \<Longrightarrow> getParent (key_of c) n = Some p"
proof (induction n)
  case (Text k s) then show ?case by auto
next
  case (Elem t k d cs)
  show ?case
  proof (cases "p = Elem t k d cs")
    case True then show ?thesis using Elem.prems(3) by auto
  next
    case False
    then obtain c0 where c0: "c0 \<in> set cs" "p \<in> set (all_nodes c0)" using Elem.prems(2) by auto
    have dc: "distinct (concat (map keys cs))"
      using Elem.prems(1) by simp
    have d0: "distinct (keys c0)" by (rule distinct_concat_map_each[OF dc c0(1)])
    have "key_of c \<in> set (desc_keys p)"
      using Elem.prems(3) key_of_in_keys[of c] by (cases p) (auto simp: desc_keys_def)
    then have kd: "key_of c \<in> set (desc_keys c0)"
      using desc_keys_sub[OF c0(2)] by blast
    have notchild: "key_of c \<notin> key_of ` set cs"
    proof
      assume "key_of c \<in> key_of ` set cs"
      then obtain c1 where c1: "c1 \<in> set cs" "key_of c1 = key_of c" by auto
      show False
      proof (cases "c1 = c0")
        case True
        then show ?thesis using d0 kd c1(2) by (simp add: keys_eq)
      next
        case False
        then have "set (keys c1) \<inter> set (keys c0) = {}"
          using distinct_concat_map_disj[OF dc c1(1) c0(1)] by simp
        moreover have "key_of c \<in> set (keys c1)" using c1(2) by (simp add: keys_eq)
        moreover have "key_of c \<in> set (keys c0)" using kd by (simp add: keys_eq)
        ultimately show ?thesis by auto
      qed
    qed
    have "first_some (map (getParent (key_of c)) cs) = getParent (key_of c) c0"
    proof (rule first_some_unique[OF c0(1)])
      fix c' assume "c' \<in> set cs" "c' \<noteq> c0"
      then have "set (keys c') \<inter> set (keys c0) = {}"
        using distinct_concat_map_disj[OF dc _ c0(1)] by blast
      moreover have "key_of c \<in> set (keys c0)" using kd by (simp add: keys_eq)
      ultimately have "key_of c \<notin> set (keys c')" by blast
      then have "key_of c \<notin> set (desc_keys c')" by (simp add: keys_eq)
      then show "getParent (key_of c) c' = None" by (simp add: getParent_None_iff)
    qed
    also have "\<dots> = Some p"
      using Elem.IH[OF c0(1) d0 c0(2) Elem.prems(3)] .
    finally show ?thesis using notchild by simp
  qed
qed

lemma update_node_id: "k \<notin> set (keys n) \<Longrightarrow> update_node k f n = n"
  by (induction n) (auto simp: map_idI)

lemma update_node_key:
  "(\<And>x. key_of x = k \<Longrightarrow> key_of (f x) = k) \<Longrightarrow> key_of (update_node k f n) = key_of n"
  by (cases n) auto

lemma update_node_twice:
  "key_of A = k \<Longrightarrow> update_node k g (update_node k (\<lambda>_. A) n) = update_node k (\<lambda>_. g A) n"
proof (induction n)
  case (Text k' s) then show ?case by (cases A) auto
next
  case (Elem t k' d cs)
  show ?case
  proof (cases "k' = k")
    case True then show ?thesis using Elem.prems by (cases A) auto
  next
    case False then show ?thesis using Elem by simp
  qed
qed

lemma update_node_const:
  "distinct (keys n) \<Longrightarrow> T \<in> set (all_nodes n)
     \<Longrightarrow> update_node (key_of T) g n = update_node (key_of T) (\<lambda>_. g T) n"
proof (induction n)
  case (Text k s) then show ?case by auto
next
  case (Elem t k d cs)
  have dc: "distinct (concat (map keys cs))" and kn: "k \<notin> set (concat (map keys cs))"
    using Elem.prems(1) by simp_all
  show ?case
  proof (cases "T = Elem t k d cs")
    case True then show ?thesis by simp
  next
    case False
    then obtain c0 where c0: "c0 \<in> set cs" "T \<in> set (all_nodes c0)" using Elem.prems(2) by auto
    have kT: "key_of T \<in> set (keys c0)" using c0(2) by (simp add: keys_def)
    have "set (keys c0) \<subseteq> set (concat (map keys cs))" using c0(1) by auto
    then have ne: "k \<noteq> key_of T" using kn kT by blast
    have "map (update_node (key_of T) g) cs = map (update_node (key_of T) (\<lambda>_. g T)) cs"
    proof (rule map_cong[OF refl])
      fix c assume c: "c \<in> set cs"
      show "update_node (key_of T) g c = update_node (key_of T) (\<lambda>_. g T) c"
      proof (cases "c = c0")
        case True
        then show ?thesis
          using Elem.IH[OF c0(1) distinct_concat_map_each[OF dc c0(1)] c0(2)] by simp
      next
        case False
        then have "set (keys c) \<inter> set (keys c0) = {}"
          using distinct_concat_map_disj[OF dc c c0(1)] by simp
        then have "key_of T \<notin> set (keys c)" using kT by blast
        then show ?thesis by (simp add: update_node_id)
      qed
    qed
    then show ?thesis using ne by simp
  qed
qed

lemma update_node_subst:
  assumes "distinct (keys n)" "T \<in> set (all_nodes n)" "key_of T' = key_of T"
    "distinct (keys T')" "set (keys T') \<inter> (set (keys n) - set (keys T)) = {}"
  shows "distinct (keys (update_node (key_of T) (\<lambda>_. T') n))
       \<and> set (keys (update_node (key_of T) (\<lambda>_. T') n)) = (set (keys n) - set (keys T)) \<union> set (keys T')
       \<and> T' \<in> set (all_nodes (update_node (key_of T) (\<lambda>_. T') n))"
  using assms
proof (induction n)
  case (Text k s)
  then show ?case by auto
next
  case (Elem t k d cs)
  have dc: "distinct (concat (map keys cs))" and kn: "k \<notin> set (concat (map keys cs))"
    using Elem.prems(1) by simp_all
  show ?case
  proof (cases "T = Elem t k d cs")
    case True
    then show ?thesis using Elem.prems(4) by simp
  next
    case False
    then obtain c0 where c0: "c0 \<in> set cs" "T \<in> set (all_nodes c0)" using Elem.prems(2) by auto
    obtain pre post where cs: "cs = pre @ c0 # post" using c0(1) by (meson split_list)
    have kT: "key_of T \<in> set (keys c0)" using c0(2) by (simp add: keys_def)
    have sub: "set (keys T) \<subseteq> set (keys c0)" by (rule keys_sub[OF c0(2)])
    have d0: "distinct (keys c0)" by (rule distinct_concat_map_each[OF dc c0(1)])
    have dpre: "distinct (concat (map keys pre))" and dpost: "distinct (concat (map keys post))"
      and x1: "set (concat (map keys pre)) \<inter> set (keys c0) = {}"
      and x2: "set (concat (map keys post)) \<inter> set (keys c0) = {}"
      and x3: "set (concat (map keys pre)) \<inter> set (concat (map keys post)) = {}"
      using dc unfolding cs by auto
    have k0: "k \<notin> set (keys c0)" "k \<notin> set (concat (map keys pre))" "k \<notin> set (concat (map keys post))"
      using kn unfolding cs by auto
    have ne: "k \<noteq> key_of T" using k0(1) kT by blast
    have idpre: "map (update_node (key_of T) (\<lambda>_. T')) pre = pre"
    proof (rule map_idI)
      fix c assume "c \<in> set pre"
      then have "set (keys c) \<subseteq> set (concat (map keys pre))" by auto
      then have "key_of T \<notin> set (keys c)" using x1 kT by blast
      then show "update_node (key_of T) (\<lambda>_. T') c = c" by (rule update_node_id)
    qed
    have idpost: "map (update_node (key_of T) (\<lambda>_. T')) post = post"
    proof (rule map_idI)
      fix c assume "c \<in> set post"
      then have "set (keys c) \<subseteq> set (concat (map keys post))" by auto
      then have "key_of T \<notin> set (keys c)" using x2 kT by blast
      then show "update_node (key_of T) (\<lambda>_. T') c = c" by (rule update_node_id)
    qed
    let ?u = "update_node (key_of T) (\<lambda>_. T') c0"
    have upd: "update_node (key_of T) (\<lambda>_. T') (Elem t k d cs) = Elem t k d (pre @ ?u # post)"
      using ne idpre idpost by (simp add: cs)
    have p5: "set (keys T') \<inter> (set (keys c0) - set (keys T)) = {}"
      using Elem.prems(5) c0(1) by auto
    have IH: "distinct (keys ?u)"
      "set (keys ?u) = (set (keys c0) - set (keys T)) \<union> set (keys T')"
      "T' \<in> set (all_nodes ?u)"
      using Elem.IH[OF c0(1) d0 c0(2) Elem.prems(3) Elem.prems(4) p5] by blast+
    have out: "set (concat (map keys pre)) \<subseteq> set (keys (Elem t k d cs)) - set (keys T)"
      "set (concat (map keys post)) \<subseteq> set (keys (Elem t k d cs)) - set (keys T)"
      "k \<in> set (keys (Elem t k d cs)) - set (keys T)"
      using x1 x2 sub k0(1) unfolding cs by auto
    have t1: "set (keys T') \<inter> set (concat (map keys pre)) = {}"
      "set (keys T') \<inter> set (concat (map keys post)) = {}" "k \<notin> set (keys T')"
      using Elem.prems(5) out by blast+
    have u1: "set (keys ?u) \<inter> set (concat (map keys pre)) = {}"
      "set (keys ?u) \<inter> set (concat (map keys post)) = {}" "k \<notin> set (keys ?u)"
      using IH(2) t1 x1 x2 k0(1) by blast+
    have g1: "distinct (keys (Elem t k d (pre @ ?u # post)))"
      using dpre dpost x3 IH(1) u1 k0 by auto
    have g2: "set (keys (Elem t k d (pre @ ?u # post)))
        = (set (keys (Elem t k d cs)) - set (keys T)) \<union> set (keys T')"
    proof -
      have "set (keys (Elem t k d (pre @ ?u # post)))
          = insert k (set (concat (map keys pre)) \<union> set (keys ?u) \<union> set (concat (map keys post)))"
        by auto
      also have "\<dots> = insert k (set (concat (map keys pre)) \<union> ((set (keys c0) - set (keys T)) \<union> set (keys T'))
            \<union> set (concat (map keys post)))"
        by (simp only: IH(2))
      also have "\<dots> = (insert k (set (concat (map keys pre)) \<union> set (keys c0) \<union> set (concat (map keys post)))
            - set (keys T)) \<union> set (keys T')"
        using out sub by blast
      also have "insert k (set (concat (map keys pre)) \<union> set (keys c0) \<union> set (concat (map keys post)))
          = set (keys (Elem t k d cs))"
        unfolding cs by auto
      finally show ?thesis .
    qed
    have g3: "T' \<in> set (all_nodes (Elem t k d (pre @ ?u # post)))"
      using IH(3) by simp
    show ?thesis using g1 g2 g3 by (simp only: upd)
  qed
qed

lemma distinct_keys_filter:
  "distinct (concat (map keys cs)) \<Longrightarrow> distinct (concat (map keys (filter P cs)))"
  by (induction cs) auto

lemma keys_filter_sub: "set (concat (map keys (filter P cs))) \<subseteq> set (concat (map keys cs))"
  by auto

lemma distinct_child_keys:
  "distinct (concat (map keys cs)) \<Longrightarrow> distinct (map key_of cs)"
proof (induction cs)
  case Nil then show ?case by simp
next
  case (Cons c cs)
  have "key_of c \<in> set (keys c)" by (rule key_of_in_keys)
  moreover have "\<And>x. x \<in> set cs \<Longrightarrow> key_of x \<in> set (concat (map keys cs))"
    using key_of_in_keys by auto
  ultimately show ?case using Cons by auto
qed

lemma distinct_keys_sub:
  "distinct (keys n) \<Longrightarrow> x \<in> set (all_nodes n) \<Longrightarrow> distinct (keys x)"
proof (induction n)
  case (Text k s) then show ?case by auto
next
  case (Elem t k d cs)
  show ?case
  proof (cases "x = Elem t k d cs")
    case True then show ?thesis using Elem.prems(1) by simp
  next
    case False
    then obtain c where c: "c \<in> set cs" "x \<in> set (all_nodes c)" using Elem.prems(2) by auto
    have "distinct (concat (map keys cs))" using Elem.prems(1) by simp
    then have "distinct (keys c)" using c(1) by (rule distinct_concat_map_each)
    then show ?thesis using Elem.IH c by blast
  qed
qed

lemma removeNodeByKey_child:
  assumes d: "distinct (keys D)" and T: "Elem t k d cs \<in> set (all_nodes D)" and x: "x \<in> set cs"
  shows "removeNodeByKey (key_of x) (ch\<lparr>document := D\<rparr>)
       = Inr (ch\<lparr>document :=
                update_node k (\<lambda>_. Elem t k d (filter (\<lambda>c. key_of c \<noteq> key_of x) cs)) D\<rparr>)"
proof -
  have gp: "getParent (key_of x) D = Some (Elem t k d cs)"
    using getParent_found[OF d T] x by simp
  have "update_node k (map_children (filter (\<lambda>c. key_of c \<noteq> key_of x))) D
      = update_node k (\<lambda>_. map_children (filter (\<lambda>c. key_of c \<noteq> key_of x)) (Elem t k d cs)) D"
    using update_node_const[OF d T, of "map_children (filter (\<lambda>c. key_of c \<noteq> key_of x))"] by simp
  then show ?thesis by (simp add: removeNodeByKey_def gp)
qed

lemma subst_child_list:
  assumes d: "distinct (keys D)" and T: "Elem t k d cs \<in> set (all_nodes D)"
    and dk: "distinct (concat (map keys cs'))"
    and sub: "set (concat (map keys cs')) \<subseteq> set (concat (map keys cs))"
  shows "distinct (keys (update_node k (\<lambda>_. Elem t k d cs') D))"
    and "Elem t k d cs' \<in> set (all_nodes (update_node k (\<lambda>_. Elem t k d cs') D))"
proof -
  have kT: "k \<notin> set (concat (map keys cs))"
    using distinct_keys_sub[OF d T] by simp
  have a: "key_of (Elem t k d cs') = key_of (Elem t k d cs)" by simp
  have b: "distinct (keys (Elem t k d cs'))" using dk sub kT by auto
  have c: "set (keys (Elem t k d cs')) \<inter> (set (keys D) - set (keys (Elem t k d cs))) = {}"
    using sub by auto
  show "distinct (keys (update_node k (\<lambda>_. Elem t k d cs') D))"
    and "Elem t k d cs' \<in> set (all_nodes (update_node k (\<lambda>_. Elem t k d cs') D))"
    using update_node_subst[OF d T a b c] by simp_all
qed

lemma update_node_ident: "update_node k (\<lambda>x. x) n = n"
  by (induction n) (simp_all add: map_idI)

lemma update_node_self:
  "distinct (keys D) \<Longrightarrow> T \<in> set (all_nodes D) \<Longrightarrow> update_node (key_of T) (\<lambda>_. T) D = D"
  using update_node_const[of D T "\<lambda>x. x"] by (simp add: update_node_ident)

lemma remove_children_loop:
  assumes "distinct (keys D)" "Elem t k d cs \<in> set (all_nodes D)"
    "set xs \<subseteq> set cs" "distinct (map key_of xs)"
  shows "forEach (\<lambda>child. removeNodeByKey (key_of child)) xs (ch\<lparr>document := D\<rparr>)
       = Inr (ch\<lparr>document :=
                update_node k (\<lambda>_. Elem t k d (filter (\<lambda>c. key_of c \<notin> key_of ` set xs) cs)) D\<rparr>)"
  using assms
proof (induction xs arbitrary: cs D)
  case Nil
  have "update_node k (\<lambda>_. Elem t k d cs) D = D"
    using update_node_self[OF Nil.prems(1,2)] by simp
  then show ?case by simp
next
  case (Cons x xs)
  let ?cs1 = "filter (\<lambda>c. key_of c \<noteq> key_of x) cs"
  let ?D1 = "update_node k (\<lambda>_. Elem t k d ?cs1) D"
  have x: "x \<in> set cs" using Cons.prems(3) by simp
  have dcs: "distinct (concat (map keys cs))"
    using distinct_keys_sub[OF Cons.prems(1,2)] by simp
  have step: "removeNodeByKey (key_of x) (ch\<lparr>document := D\<rparr>) = Inr (ch\<lparr>document := ?D1\<rparr>)"
    by (rule removeNodeByKey_child[OF Cons.prems(1,2) x])
  have d1: "distinct (keys ?D1)" and T1: "Elem t k d ?cs1 \<in> set (all_nodes ?D1)"
    using subst_child_list[OF Cons.prems(1,2) distinct_keys_filter[OF dcs] keys_filter_sub]
    by blast+
  have "\<And>y. y \<in> set xs \<Longrightarrow> key_of y \<noteq> key_of x"
    using Cons.prems(4) by (metis distinct.simps(2) image_eqI list.simps(9) set_map)
  then have sub1: "set xs \<subseteq> set ?cs1"
    using Cons.prems(3) by auto
  have dx: "distinct (map key_of xs)" using Cons.prems(4) by simp
  have "forEach (\<lambda>child. removeNodeByKey (key_of child)) xs (ch\<lparr>document := ?D1\<rparr>)
      = Inr (ch\<lparr>document :=
               update_node k (\<lambda>_. Elem t k d (filter (\<lambda>c. key_of c \<notin> key_of ` set xs) ?cs1)) ?D1\<rparr>)"
    using Cons.IH[OF d1 T1 sub1 dx] by simp
  moreover have "update_node k (\<lambda>_. Elem t k d (filter (\<lambda>c. key_of c \<notin> key_of ` set xs) ?cs1)) ?D1
      = update_node k (\<lambda>_. Elem t k d (filter (\<lambda>c. key_of c \<notin> key_of ` set xs) ?cs1)) D"
    by (rule update_node_twice) simp
  moreover have "filter (\<lambda>c. key_of c \<notin> key_of ` set xs) ?cs1
      = filter (\<lambda>c. key_of c \<notin> key_of ` set (x # xs)) cs"
  proof -
    have "filter (\<lambda>c. key_of c \<notin> key_of ` set xs) ?cs1
        = filter (\<lambda>c. key_of c \<noteq> key_of x \<and> key_of c \<notin> key_of ` set xs) cs"
      by (simp only: filter_filter)
    also have "\<dots> = filter (\<lambda>c. key_of c \<notin> key_of ` set (x # xs)) cs"
      by (rule filter_cong[OF refl]) simp
    finally show ?thesis .
  qed
  ultimately show ?case using step by simp
qed

lemma fits_refl: "distinct (keys D) \<Longrightarrow> C \<in> set (all_nodes D) \<Longrightarrow> fits D C C"
  using distinct_keys_sub by (auto simp: fits_def)

lemma subst_self: "distinct (keys D) \<Longrightarrow> C \<in> set (all_nodes D) \<Longrightarrow> subst D C C = D"
  by (simp add: subst_def update_node_self)

lemma fits_subst:
  assumes "fits D C C'"
  shows "distinct (keys (subst D C C'))" and "C' \<in> set (all_nodes (subst D C C'))"
  using assms update_node_subst[of D C C'] by (simp_all add: fits_def subst_def)

lemma subst_subst:
  "key_of C' = key_of C \<Longrightarrow> update_node (key_of C) g (subst D C C') = subst D C (g C')"
  unfolding subst_def by (rule update_node_twice) simp

lemma update_node_local:
  "distinct (keys D) \<Longrightarrow> T \<in> set (all_nodes D) \<Longrightarrow> k' \<in> set (keys T)
     \<Longrightarrow> update_node k' f D = update_node (key_of T) (\<lambda>_. update_node k' f T) D"
proof (induction D)
  case (Text k s) then show ?case by auto
next
  case (Elem t k d cs)
  have dc: "distinct (concat (map keys cs))" and kn: "k \<notin> set (concat (map keys cs))"
    using Elem.prems(1) by simp_all
  show ?case
  proof (cases "T = Elem t k d cs")
    case True then show ?thesis by simp
  next
    case False
    then obtain c0 where c0: "c0 \<in> set cs" "T \<in> set (all_nodes c0)" using Elem.prems(2) by auto
    have kT: "key_of T \<in> set (keys c0)" using c0(2) by (simp add: keys_def)
    have k': "k' \<in> set (keys c0)" using keys_sub[OF c0(2)] Elem.prems(3) by blast
    have "set (keys c0) \<subseteq> set (concat (map keys cs))" using c0(1) by auto
    then have ne: "k \<noteq> key_of T" "k \<noteq> k'" using kn kT k' by blast+
    have "map (update_node k' f) cs = map (update_node (key_of T) (\<lambda>_. update_node k' f T)) cs"
    proof (rule map_cong[OF refl])
      fix c assume c: "c \<in> set cs"
      show "update_node k' f c = update_node (key_of T) (\<lambda>_. update_node k' f T) c"
      proof (cases "c = c0")
        case True
        then show ?thesis
          using Elem.IH[OF c0(1) distinct_concat_map_each[OF dc c0(1)] c0(2) Elem.prems(3)] by simp
      next
        case False
        then have "set (keys c) \<inter> set (keys c0) = {}"
          using distinct_concat_map_disj[OF dc c c0(1)] by simp
        then have "key_of T \<notin> set (keys c)" "k' \<notin> set (keys c)" using kT k' by blast+
        then show ?thesis by (simp add: update_node_id)
      qed
    qed
    then show ?thesis using ne by simp
  qed
qed

lemma update_node_in_subst:
  assumes f: "fits D C C'" and k': "k' \<in> set (keys C')"
  shows "update_node k' g (subst D C C') = subst D C (update_node k' g C')"
proof -
  have kk: "key_of C' = key_of C" using f by (simp add: fits_def)
  have "update_node k' g (subst D C C')
      = update_node (key_of C') (\<lambda>_. update_node k' g C') (subst D C C')"
    by (rule update_node_local[OF fits_subst[OF f] k'])
  also have "\<dots> = subst D C (update_node k' g C')"
    using subst_subst[OF kk, of "\<lambda>_. update_node k' g C'" D] kk by simp
  finally show ?thesis .
qed

lemma getNode_in_subst:
  assumes f: "fits D C C'" and x: "x \<in> set (all_nodes C')"
  shows "getNode (key_of x) (subst D C C') = Some x"
  using getNode_found[OF fits_subst(1)[OF f]] all_nodes_trans[OF fits_subst(2)[OF f] x] by blast

lemma getParent_in_subst:
  assumes f: "fits D C C'" and p: "p \<in> set (all_nodes C')" and x: "x \<in> set (children p)"
  shows "getParent (key_of x) (subst D C C') = Some p"
  using getParent_found[OF fits_subst(1)[OF f] all_nodes_trans[OF fits_subst(2)[OF f] p] x] .

lemma update_node_focus:
  assumes d: "distinct (keys (Elem t k d (pre @ c # suf)))" and k': "k' \<in> set (keys c)"
  shows "update_node k' f (Elem t k d (pre @ c # suf)) = Elem t k d (pre @ update_node k' f c # suf)"
proof -
  have x1: "set (concat (map keys pre)) \<inter> set (keys c) = {}"
    and x2: "set (concat (map keys suf)) \<inter> set (keys c) = {}"
    and k0: "k \<notin> set (keys c)"
    using d by auto
  have ne: "k \<noteq> k'" using k0 k' by blast
  have idpre: "map (update_node k' f) pre = pre"
  proof (rule map_idI)
    fix y assume "y \<in> set pre"
    then have "set (keys y) \<subseteq> set (concat (map keys pre))" by auto
    then have "k' \<notin> set (keys y)" using x1 k' by blast
    then show "update_node k' f y = y" by (rule update_node_id)
  qed
  have idsuf: "map (update_node k' f) suf = suf"
  proof (rule map_idI)
    fix y assume "y \<in> set suf"
    then have "set (keys y) \<subseteq> set (concat (map keys suf))" by auto
    then have "k' \<notin> set (keys y)" using x2 k' by blast
    then show "update_node k' f y = y" by (rule update_node_id)
  qed
  show ?thesis using ne idpre idsuf by simp
qed

lemma update_node_root: "update_node (key_of x) f x = f x"
  by (cases x) simp_all

section \<open>The table-content rule\<close>

lemma filter_by_invalid_keys:
  assumes "distinct (map key_of cs)"
  shows "filter (\<lambda>c. key_of c \<notin> key_of ` set (filter (\<lambda>c. \<not> P c) cs)) cs = filter P cs"
proof (rule filter_cong[OF refl])
  fix c assume c: "c \<in> set cs"
  show "(key_of c \<notin> key_of ` set (filter (\<lambda>c. \<not> P c) cs)) = P c"
  proof
    assume "key_of c \<notin> key_of ` set (filter (\<lambda>c. \<not> P c) cs)"
    then show "P c" using c by auto
  next
    assume p: "P c"
    show "key_of c \<notin> key_of ` set (filter (\<lambda>c. \<not> P c) cs)"
    proof
      assume "key_of c \<in> key_of ` set (filter (\<lambda>c. \<not> P c) cs)"
      then obtain c' where c': "c' \<in> set cs" "\<not> P c'" "key_of c' = key_of c" by auto
      then have "c' = c" using assms c by (meson distinct_map inj_onD)
      then show False using p c'(2) by simp
    qed
  qed
qed

lemma insertNodeByKey_at:
  assumes d: "distinct (keys D)" and T: "Elem t k d cs \<in> set (all_nodes D)"
  shows "insertNodeByKey k i new (ch\<lparr>document := D\<rparr>)
       = Inr (ch\<lparr>document := update_node k (\<lambda>_. Elem t k d (insert_at i new cs)) D\<rparr>)"
proof -
  have g: "getNode k D = Some (Elem t k d cs)"
    using getNode_found[OF d T] by simp
  have "update_node k (map_children (insert_at i new)) D
      = update_node k (\<lambda>_. map_children (insert_at i new) (Elem t k d cs)) D"
    using update_node_const[OF d T, of "map_children (insert_at i new)"] by simp
  then show ?thesis by (simp add: insertNodeByKey_def g)
qed

text \<open>
  C6. In a document with distinct keys, for every table node of the tree: the
  table-content rule reports a violation exactly when the table has a non-row child or
  all of its children are non-rows (a table without children included); its normalize
  then removes every non-row child and, exactly when no row is left, inserts one
  synthesized empty row at index 0, leaving the rest of the tree as it was. The
  synthesized row holds one cell that holds one empty text leaf.
\<close>

theorem table_content_rule:
  assumes d: "distinct (keys (document ch))"
    and T: "Elem t k d cs \<in> set (all_nodes (document ch))"
  shows "validate_tablesContainOnlyRows opts n (Elem t k d cs)
           = (if cs \<noteq> [] \<and> (\<forall>c \<in> set cs. isRow opts c) then Inr None
              else Inr (Some (BadChildren (filter (\<lambda>c. \<not> isRow opts c) cs)
                               (if filter (isRow opts) cs = [] then [makeEmptyRow opts n] else []))))
       \<and> normalize_tablesContainOnlyRows ch (Elem t k d cs) (filter (\<lambda>c. \<not> isRow opts c) cs)
             (if filter (isRow opts) cs = [] then [makeEmptyRow opts n] else [])
           = Inr (ch\<lparr>document :=
                    update_node k
                      (\<lambda>_. Elem t k d ((if filter (isRow opts) cs = [] then [makeEmptyRow opts n] else [])
                                       @ filter (isRow opts) cs))
                      (document ch)\<rparr>)
       \<and> makeEmptyRow opts n
           = Elem (Block (typeRow opts)) (Suc (Suc n)) []
               [Elem (Block (typeCell opts)) (Suc n) [] [Text n '''']]"
proof (intro conjI)
  have len: "(length (filter (\<lambda>c. \<not> isRow opts c) cs) = length cs) = (filter (isRow opts) cs = [])"
    using sum_length_filter_compl[of "isRow opts" cs] by (auto simp: filter_empty_conv)
  show "validate_tablesContainOnlyRows opts n (Elem t k d cs)
           = (if cs \<noteq> [] \<and> (\<forall>c \<in> set cs. isRow opts c) then Inr None
              else Inr (Some (BadChildren (filter (\<lambda>c. \<not> isRow opts c) cs)
                               (if filter (isRow opts) cs = [] then [makeEmptyRow opts n] else []))))"
  proof (cases "cs \<noteq> [] \<and> (\<forall>c \<in> set cs. isRow opts c)")
    case True
    then have "filter (\<lambda>c. \<not> isRow opts c) cs = []" by (simp add: filter_empty_conv)
    then show ?thesis using True by simp
  next
    case False
    then have "filter (\<lambda>c. \<not> isRow opts c) cs \<noteq> [] \<or> cs = []"
      by (auto simp: filter_empty_conv)
    then show ?thesis using False len by (auto simp: Let_def)
  qed
  let ?D = "document ch"
  let ?inv = "filter (\<lambda>c. \<not> isRow opts c) cs"
  let ?rows = "filter (isRow opts) cs"
  let ?D1 = "update_node k (\<lambda>_. Elem t k d ?rows) ?D"
  have dcs: "distinct (concat (map keys cs))"
    using distinct_keys_sub[OF d T] by simp
  have dk: "distinct (map key_of cs)" by (rule distinct_child_keys[OF dcs])
  have "forEach (\<lambda>child. removeNodeByKey (key_of child)) ?inv (ch\<lparr>document := ?D\<rparr>)
      = Inr (ch\<lparr>document :=
               update_node k (\<lambda>_. Elem t k d (filter (\<lambda>c. key_of c \<notin> key_of ` set ?inv) cs)) ?D\<rparr>)"
    by (rule remove_children_loop[OF d T]) (simp_all add: dk distinct_map_filter)
  then have "forEach (\<lambda>child. removeNodeByKey (key_of child)) ?inv (ch\<lparr>document := ?D\<rparr>)
      = Inr (ch\<lparr>document := ?D1\<rparr>)"
    by (simp only: filter_by_invalid_keys[OF dk])
  then have rem: "forEach (\<lambda>child. removeNodeByKey (key_of child)) ?inv ch = Inr (ch\<lparr>document := ?D1\<rparr>)"
    by simp
  have d1: "distinct (keys ?D1)" and T1: "Elem t k d ?rows \<in> set (all_nodes ?D1)"
    using subst_child_list[OF d T distinct_keys_filter[OF dcs] keys_filter_sub] by blast+
  have ins: "insertNodeByKey k 0 (makeEmptyRow opts n) (ch\<lparr>document := ?D1\<rparr>)
      = Inr (ch\<lparr>document := update_node k (\<lambda>_. Elem t k d (makeEmptyRow opts n # ?rows)) ?D\<rparr>)"
  proof -
    have "update_node k (\<lambda>_. Elem t k d (insert_at 0 (makeEmptyRow opts n) ?rows)) ?D1
        = update_node k (\<lambda>_. Elem t k d (insert_at 0 (makeEmptyRow opts n) ?rows)) ?D"
      by (rule update_node_twice) simp
    then show ?thesis
      using insertNodeByKey_at[OF d1 T1, of 0 "makeEmptyRow opts n" ch]
      by (simp add: insert_at_def)
  qed
  show "normalize_tablesContainOnlyRows ch (Elem t k d cs) ?inv
             (if ?rows = [] then [makeEmptyRow opts n] else [])
           = Inr (ch\<lparr>document :=
                    update_node k
                      (\<lambda>_. Elem t k d ((if ?rows = [] then [makeEmptyRow opts n] else []) @ ?rows))
                      ?D\<rparr>)"
  proof (cases "?rows = []")
    case True
    then show ?thesis
      using rem ins by (simp add: normalize_tablesContainOnlyRows_def and_then_def)
  next
    case False
    then show ?thesis
      using rem by (simp add: normalize_tablesContainOnlyRows_def and_then_def)
  qed
  show "makeEmptyRow opts n
           = Elem (Block (typeRow opts)) (Suc (Suc n)) []
               [Elem (Block (typeCell opts)) (Suc n) [] [Text n '''']]"
    by (simp add: makeEmptyRow_def makeEmptyCell_def)
qed

text \<open>
  The theorem at a table whose only child is a paragraph: the paragraph is removed and
  the empty row, built from the keys 4, 5 and 6, takes its place.
\<close>

theorem table_content_rule_witness:
  "distinct (keys stray_doc)
   \<and> validate_tablesContainOnlyRows example_opts 4
        (Elem (Block ''table'') 1 [] [Elem (Block ''paragraph'') 2 [] [Text 3 ''x'']])
      = Inr (Some (BadChildren [Elem (Block ''paragraph'') 2 [] [Text 3 ''x'']]
               [makeEmptyRow example_opts 4]))
   \<and> normalize_tablesContainOnlyRows \<lparr>document = stray_doc, start_key = 2, next_key = 7\<rparr>
        (Elem (Block ''table'') 1 [] [Elem (Block ''paragraph'') 2 [] [Text 3 ''x'']])
        [Elem (Block ''paragraph'') 2 [] [Text 3 ''x'']] [makeEmptyRow example_opts 4]
      = Inr \<lparr>document = Elem Document 0 []
                [Elem (Block ''table'') 1 []
                   [Elem (Block ''table_row'') 6 [] [Elem (Block ''table_cell'') 5 [] [Text 4 []]]]],
              start_key = 2, next_key = 7\<rparr>"
proof -
  have d: "distinct (keys (document \<lparr>document = stray_doc, start_key = 2, next_key = 7\<rparr>))"
    by (simp add: stray_doc_def)
  have T: "Elem (Block ''table'') 1 [] [Elem (Block ''paragraph'') 2 [] [Text 3 ''x'']]
        \<in> set (all_nodes (document \<lparr>document = stray_doc, start_key = 2, next_key = 7\<rparr>))"
    by (simp add: stray_doc_def)
  show ?thesis
    using table_content_rule[OF d T, of example_opts 4] d
    by (simp add: stray_doc_def example_opts_def isRow_def makeEmptyRow_def makeEmptyCell_def)
qed

section \<open>The cell-content rule\<close>

lemma fits_mono:
  assumes f: "fits D C C1" and k: "key_of C3 = key_of C1" and d: "distinct (keys C3)"
    and s: "set (keys C3) \<subseteq> set (keys C1)"
  shows "fits D C C3"
proof -
  have x: "set (keys C1) \<inter> (set (keys D) - set (keys C)) = {}"
    and y: "distinct (keys D)" "C \<in> set (all_nodes D)" "key_of C1 = key_of C"
    using f by (simp_all add: fits_def)
  have "set (keys C3) \<inter> (set (keys D) - set (keys C)) = {}"
    using x s by blast
  then show ?thesis using y k d by (simp add: fits_def)
qed

lemma keys_mark_text [simp]: "keys (mark_text idx g) = keys g"
  by (cases g) simp_all

lemma key_of_mark_text [simp]: "key_of (mark_text idx g) = key_of g"
  by (cases g) simp_all

lemma hasDescendant_in_subst:
  assumes f: "fits D C C'" and k': "k' \<in> set (desc_keys C')"
  shows "hasDescendant k' (subst D C C')"
proof -
  have "k' \<in> set (desc_keys (subst D C C'))"
    using desc_keys_sub[OF fits_subst(2)[OF f]] k' by blast
  then show ?thesis unfolding hasDescendant_def desc_keys_def .
qed

lemma lift_in_focus:
  assumes "distinct (map key_of (pre @ B # suf))" and "key_of B = kb"
  shows "lift_in nk kg kb (pre @ B # suf) = pre @ lift_child nk kg B @ suf"
proof -
  have "kb \<notin> key_of ` set pre" "kb \<notin> key_of ` set suf"
    using assms by auto
  then have a: "\<And>p. p \<in> set pre \<Longrightarrow> key_of p \<noteq> kb" and b: "\<And>p. p \<in> set suf \<Longrightarrow> key_of p \<noteq> kb"
    by blast+
  have c: "\<And>xs. (\<And>p. p \<in> set xs \<Longrightarrow> key_of p \<noteq> kb)
      \<Longrightarrow> concat (map (\<lambda>p. if key_of p = kb then lift_child nk kg p else [p]) xs) = xs"
  proof -
    fix xs :: "node list"
    show "(\<And>p. p \<in> set xs \<Longrightarrow> key_of p \<noteq> kb)
      \<Longrightarrow> concat (map (\<lambda>p. if key_of p = kb then lift_child nk kg p else [p]) xs) = xs"
      by (induction xs) simp_all
  qed
  have "concat (map (\<lambda>p. if key_of p = kb then lift_child nk kg p else [p]) pre) = pre"
    using c[OF a] by simp
  moreover have "concat (map (\<lambda>p. if key_of p = kb then lift_child nk kg p else [p]) suf) = suf"
    using c[OF b] by simp
  ultimately show ?thesis using assms(2) by (simp add: lift_in_def)
qed

lemma key_in_keys: "x \<in> set (all_nodes n) \<Longrightarrow> key_of x \<in> set (keys n)"
  by (simp add: keys_def)

lemma insertText_in_subst:
  assumes f: "fits D C C'" and x: "Text kg s \<in> set (all_nodes C')"
  shows "insertTextByKey kg off str (ch\<lparr>document := subst D C C'\<rparr>)
       = Inr (ch\<lparr>document :=
                subst D C (update_node kg (\<lambda>_. Text kg (take off s @ str @ drop off s)) C')\<rparr>)"
proof -
  have g: "getNode kg (subst D C C') = Some (Text kg s)"
    using getNode_in_subst[OF f x] by simp
  have k': "kg \<in> set (keys C')" using key_in_keys[OF x] by simp
  show ?thesis
    by (simp add: insertTextByKey_def g update_node_in_subst[OF f k'])
qed

lemma unwrap_in_subst:
  assumes f: "fits D C (Elem t k d cs')" and B: "Elem tb kb db gs \<in> set cs'" and g: "g \<in> set gs"
  shows "unwrapNodeByKey (key_of g) (ch\<lparr>document := subst D C (Elem t k d cs')\<rparr>)
       = Inr (ch\<lparr>document := subst D C (Elem t k d (lift_in (next_key ch) (key_of g) kb cs')),
               next_key := (if is_middle (key_of g) (Elem tb kb db gs)
                            then Suc (next_key ch) else next_key ch)\<rparr>)"
proof -
  have Bn: "Elem tb kb db gs \<in> set (all_nodes (Elem t k d cs'))"
    using B by (intro child_in_all_nodes) simp
  have p1: "getParent (key_of g) (subst D C (Elem t k d cs')) = Some (Elem tb kb db gs)"
    using getParent_in_subst[OF f Bn, of g] g by simp
  have p2: "getParent kb (subst D C (Elem t k d cs')) = Some (Elem t k d cs')"
    using getParent_in_subst[OF f self_in_all_nodes, of "Elem tb kb db gs"] B by simp
  have kk: "key_of (Elem t k d cs') = key_of C" using f by (simp add: fits_def)
  have u: "update_node k (map_children (lift_in (next_key ch) (key_of g) kb)) (subst D C (Elem t k d cs'))
      = subst D C (Elem t k d (lift_in (next_key ch) (key_of g) kb cs'))"
    using subst_subst[OF kk, of "map_children (lift_in (next_key ch) (key_of g) kb)" D] kk by simp
  show ?thesis
    by (simp add: unwrapNodeByKey_def p1 p2 u)
qed

lemma distinct_unwrap_step:
  assumes "distinct (keys (Elem t k d (pre @ Elem tb kb db (g # gs) # suf)))"
  shows "distinct (keys (Elem t k d ((pre @ [g]) @ Elem tb kb db gs # suf)))"
    and "distinct (keys (Elem t k d (pre @ [g] @ suf)))"
  using assms by auto

lemma fits_distinct: "fits D C C' \<Longrightarrow> distinct (keys C')"
  by (simp add: fits_def)

lemma lift_child_first:
  "key_of g = kg \<Longrightarrow>
   lift_child nk kg (Elem tb kb db (g # gs)) = g # (if gs = [] then [] else [Elem tb kb db gs])"
  by (cases gs) (simp_all add: Let_def)

lemma is_middle_first: "key_of g = kg \<Longrightarrow> \<not> is_middle kg (Elem tb kb db (g # gs))"
  by (simp add: is_middle_def Let_def)

lemma unwrap_first_child:
  assumes f: "fits D C (Elem t k d (pre @ Elem tb kb db (g # gs) # suf))"
  shows "unwrapNodeByKey (key_of g)
           (ch\<lparr>document := subst D C (Elem t k d (pre @ Elem tb kb db (g # gs) # suf))\<rparr>)
       = Inr (ch\<lparr>document :=
                subst D C (Elem t k d (pre @ g # (if gs = [] then [] else [Elem tb kb db gs]) @ suf))\<rparr>)"
proof -
  let ?B = "Elem tb kb db (g # gs)"
  have dC: "distinct (keys (Elem t k d (pre @ ?B # suf)))" by (rule fits_distinct[OF f])
  then have "distinct (concat (map keys (pre @ ?B # suf)))" by simp
  then have dk: "distinct (map key_of (pre @ ?B # suf))" by (rule distinct_child_keys)
  have li: "lift_in (next_key ch) (key_of g) kb (pre @ ?B # suf)
      = pre @ lift_child (next_key ch) (key_of g) ?B @ suf"
    by (rule lift_in_focus[OF dk]) simp
  have "unwrapNodeByKey (key_of g) (ch\<lparr>document := subst D C (Elem t k d (pre @ ?B # suf))\<rparr>)
      = Inr (ch\<lparr>document :=
               subst D C (Elem t k d (lift_in (next_key ch) (key_of g) kb (pre @ ?B # suf))),
             next_key := (if is_middle (key_of g) ?B then Suc (next_key ch) else next_key ch)\<rparr>)"
    by (rule unwrap_in_subst[OF f]) simp_all
  then show ?thesis
    by (simp add: li lift_child_first is_middle_first)
qed

lemma mark_text_focus:
  assumes f: "fits D C (Elem t k d (pre @ Elem tb kb db (Text kg s # gs) # suf))"
  shows "insertTextByKey kg 0 [CHR 0x0A]
           (ch\<lparr>document := subst D C (Elem t k d (pre @ Elem tb kb db (Text kg s # gs) # suf))\<rparr>)
       = Inr (ch\<lparr>document :=
                subst D C (Elem t k d (pre @ Elem tb kb db (Text kg (CHR 0x0A # s) # gs) # suf))\<rparr>)"
proof -
  let ?B = "Elem tb kb db (Text kg s # gs)"
  let ?C = "Elem t k d (pre @ ?B # suf)"
  let ?f = "\<lambda>_::node. Text kg (take 0 s @ [CHR 0x0A] @ drop 0 s)"
  have dC: "distinct (keys ?C)" by (rule fits_distinct[OF f])
  have dB: "distinct (keys (Elem tb kb db ([] @ Text kg s # gs)))" using dC by simp
  have x: "Text kg s \<in> set (all_nodes ?C)" by simp
  have "update_node kg ?f ?C = Elem t k d (pre @ update_node kg ?f ?B # suf)"
    by (rule update_node_focus[OF dC]) simp
  also have "update_node kg ?f ?B = Elem tb kb db ([] @ update_node kg ?f (Text kg s) # gs)"
    using update_node_focus[OF dB, of kg ?f] by simp
  finally have u: "update_node kg ?f ?C
      = Elem t k d (pre @ Elem tb kb db (Text kg (CHR 0x0A # s) # gs) # suf)"
    by simp
  show ?thesis
    using insertText_in_subst[OF f x, of 0 "[CHR 0x0A]" ch] by (simp only: u)
qed

lemma unwrap_grandChild_first:
  assumes f: "fits D C (Elem t k d (pre @ Elem tb kb db (g # gs) # suf))"
  shows "unwrap_grandChild idx g
           (ch\<lparr>document := subst D C (Elem t k d (pre @ Elem tb kb db (g # gs) # suf))\<rparr>)
       = Inr (ch\<lparr>document :=
                subst D C (Elem t k d (pre @ mark_text idx g
                                        # (if gs = [] then [] else [Elem tb kb db gs]) @ suf))\<rparr>)"
    and "fits D C (Elem t k d (pre @ mark_text idx g
                                  # (if gs = [] then [] else [Elem tb kb db gs]) @ suf))"
proof -
  let ?C1 = "Elem t k d (pre @ Elem tb kb db (g # gs) # suf)"
  let ?C2 = "Elem t k d (pre @ Elem tb kb db (mark_text idx g # gs) # suf)"
  let ?C3 = "Elem t k d (pre @ mark_text idx g # (if gs = [] then [] else [Elem tb kb db gs]) @ suf)"
  have dC: "distinct (keys ?C1)" by (rule fits_distinct[OF f])
  have f2: "fits D C ?C2"
    by (rule fits_mono[OF f]) (use dC in simp_all)
  have d3: "distinct (keys ?C3)"
    using distinct_unwrap_step[OF dC] by (cases "gs = []") simp_all
  show f3: "fits D C ?C3"
    by (rule fits_mono[OF f _ d3]) (auto split: if_splits)
  have hd: "hasDescendant (key_of g) (subst D C ?C1)"
    by (rule hasDescendant_in_subst[OF f]) (simp add: desc_keys_def key_of_in_keys)
  have un: "unwrapNodeByKey (key_of g) (ch\<lparr>document := subst D C ?C2\<rparr>)
      = Inr (ch\<lparr>document := subst D C ?C3\<rparr>)"
    using unwrap_first_child[OF f2, of ch] by simp
  show "unwrap_grandChild idx g (ch\<lparr>document := subst D C ?C1\<rparr>)
      = Inr (ch\<lparr>document := subst D C ?C3\<rparr>)"
  proof (cases "kind_of g = KText \<and> idx \<noteq> 0")
    case True
    then obtain kg s where g: "g = Text kg s" by (cases g rule: kind_of.cases) auto
    have "insertTextByKey kg 0 [CHR 0x0A] (ch\<lparr>document := subst D C ?C1\<rparr>)
        = Inr (ch\<lparr>document := subst D C ?C2\<rparr>)"
      using mark_text_focus[OF f[unfolded g], of ch] True by (simp add: g)
    then show ?thesis
      using hd True un by (simp add: unwrap_grandChild_def and_then_def g)
  next
    case False
    then have m: "mark_text idx g = g" by (cases g rule: kind_of.cases) auto
    have "unwrap_grandChild idx g (ch\<lparr>document := subst D C ?C1\<rparr>)
        = unwrapNodeByKey (key_of g) (ch\<lparr>document := subst D C ?C1\<rparr>)"
      using hd False by (auto simp: unwrap_grandChild_def)
    then show ?thesis
      using un by (simp only: m)
  qed
qed

lemma unwrap_block_loop:
  assumes "fits D C (Elem t k d (pre @ Elem tb kb db gs # suf))" and "gs \<noteq> []"
  shows "forEach (unwrap_grandChild idx) gs
           (ch\<lparr>document := subst D C (Elem t k d (pre @ Elem tb kb db gs # suf))\<rparr>)
         = Inr (ch\<lparr>document := subst D C (Elem t k d (pre @ map (mark_text idx) gs @ suf))\<rparr>)
       \<and> fits D C (Elem t k d (pre @ map (mark_text idx) gs @ suf))"
  using assms
proof (induction gs arbitrary: pre)
  case Nil then show ?case by simp
next
  case (Cons g gs)
  note st = unwrap_grandChild_first(1)[OF Cons.prems(1), of idx ch]
    unwrap_grandChild_first(2)[OF Cons.prems(1), of idx]
  show ?case
  proof (cases "gs = []")
    case True
    then show ?thesis using st by simp
  next
    case False
    have f1: "fits D C (Elem t k d ((pre @ [mark_text idx g]) @ Elem tb kb db gs # suf))"
      using st(2) False by simp
    have "forEach (unwrap_grandChild idx) gs
           (ch\<lparr>document := subst D C (Elem t k d ((pre @ [mark_text idx g]) @ Elem tb kb db gs # suf))\<rparr>)
         = Inr (ch\<lparr>document :=
                  subst D C (Elem t k d ((pre @ [mark_text idx g]) @ map (mark_text idx) gs @ suf))\<rparr>)
       \<and> fits D C (Elem t k d ((pre @ [mark_text idx g]) @ map (mark_text idx) gs @ suf))"
      by (rule Cons.IH[OF f1 False])
    then show ?thesis using st(1) False by simp
  qed
qed

lemma block_shape: "kind_of c = KBlock \<Longrightarrow> \<exists>ty kb db gs. c = Elem (Block ty) kb db gs"
  by (cases c rule: kind_of.cases) auto

lemma unwrap_all_loop:
  assumes "fits D C (Elem t k d (acc @ rest))"
  shows "forEach (\<lambda>(block, index). forEach (unwrap_grandChild index) (children block))
           (zip (filter (\<lambda>c. kind_of c = KBlock) rest)
                [i..<i + length (filter (\<lambda>c. kind_of c = KBlock) rest)])
           (ch\<lparr>document := subst D C (Elem t k d (acc @ rest))\<rparr>)
         = Inr (ch\<lparr>document := subst D C (Elem t k d (acc @ unwrapped i rest))\<rparr>)"
  using assms
proof (induction rest arbitrary: acc i)
  case Nil then show ?case by simp
next
  case (Cons c rest)
  let ?bs = "filter (\<lambda>c. kind_of c = KBlock) rest"
  show ?case
  proof (cases "kind_of c = KBlock")
    case False
    have "fits D C (Elem t k d ((acc @ [c]) @ rest))" using Cons.prems by simp
    from Cons.IH[OF this, of i] show ?thesis using False by simp
  next
    case True
    then obtain ty kb db gs where c: "c = Elem (Block ty) kb db gs" using block_shape by blast
    have "[i..<i + Suc (length ?bs)] = i # [Suc i..<i + Suc (length ?bs)]"
      by (rule upt_conv_Cons) simp
    then have up: "[i..<i + Suc (length ?bs)] = i # [Suc i..<Suc i + length ?bs]"
      by (simp only: add_Suc add_Suc_right)
    show ?thesis
    proof (cases "gs = []")
      case True
      have "fits D C (Elem t k d ((acc @ [c]) @ rest))" using Cons.prems by simp
      from Cons.IH[OF this, of "Suc i"] show ?thesis
        using \<open>kind_of c = KBlock\<close> True c up by simp
    next
      case False
      have f0: "fits D C (Elem t k d (acc @ Elem (Block ty) kb db gs # rest))"
        using Cons.prems c by simp
      note inner = unwrap_block_loop[OF f0 False, of i ch]
      have f1: "fits D C (Elem t k d ((acc @ map (mark_text i) gs) @ rest))"
        using inner by simp
      from Cons.IH[OF f1, of "Suc i"] show ?thesis
        using \<open>kind_of c = KBlock\<close> False c up inner by simp
    qed
  qed
qed

text \<open>
  The rule on an arbitrary cell of a document with distinct keys: it reports the block
  children of the cell, and its normalize leaves the children of the cell as
  \<open>unwrapped\<close> describes and the rest of the tree as it was.
\<close>

lemma cell_content_closed_form:
  assumes d: "distinct (keys (document ch))"
    and T: "Elem t k d cs \<in> set (all_nodes (document ch))"
  shows "validate_noBlocksWithinCell (Elem t k d cs)
           = (if \<exists>c \<in> set cs. kind_of c = KBlock
              then Inr (Some (NestedBlocks (filter (\<lambda>c. kind_of c = KBlock) cs)))
              else Inr None)"
    and "normalize_noBlocksWithinCell ch (Elem t k d cs) (filter (\<lambda>c. kind_of c = KBlock) cs)
           = Inr (ch\<lparr>document :=
                    update_node k (\<lambda>_. Elem t k d (unwrapped 0 cs)) (document ch)\<rparr>)"
proof -
  show "validate_noBlocksWithinCell (Elem t k d cs)
           = (if \<exists>c \<in> set cs. kind_of c = KBlock
              then Inr (Some (NestedBlocks (filter (\<lambda>c. kind_of c = KBlock) cs)))
              else Inr None)"
    by (auto simp: Let_def filter_empty_conv)
  let ?C = "Elem t k d cs"
  have f: "fits (document ch) ?C (Elem t k d ([] @ cs))"
    using fits_refl[OF d T] by simp
  have s: "subst (document ch) ?C (Elem t k d ([] @ cs)) = document ch"
    using subst_self[OF d T] by simp
  have "forEach (\<lambda>(block, index). forEach (unwrap_grandChild index) (children block))
           (zip (filter (\<lambda>c. kind_of c = KBlock) cs)
                [0..<0 + length (filter (\<lambda>c. kind_of c = KBlock) cs)])
           (ch\<lparr>document := subst (document ch) ?C (Elem t k d ([] @ cs))\<rparr>)
         = Inr (ch\<lparr>document := subst (document ch) ?C (Elem t k d ([] @ unwrapped 0 cs))\<rparr>)"
    by (rule unwrap_all_loop[OF f])
  then show "normalize_noBlocksWithinCell ch (Elem t k d cs) (filter (\<lambda>c. kind_of c = KBlock) cs)
           = Inr (ch\<lparr>document :=
                    update_node k (\<lambda>_. Elem t k d (unwrapped 0 cs)) (document ch)\<rparr>)"
    unfolding s by (simp add: normalize_noBlocksWithinCell_def subst_def)
qed

text \<open>
  The host's core schema keeps the children of a block all blocks or all inlines and text
  leaves, and gives every block a child. On such children the index of a block among the
  nested blocks is its index among the children of the cell.
\<close>

lemma unwrapped_promote:
  "\<forall>c \<in> set cs. kind_of c = KBlock \<and> children c \<noteq> [] \<Longrightarrow> unwrapped i cs = promote i cs"
  by (induction cs arbitrary: i) simp_all



section \<open>The row rule\<close>

lemma fits_extend:
  assumes f: "fits D C C1" and k: "key_of C3 = key_of C1" and d: "distinct (keys C3)"
    and s: "set (keys C3) \<subseteq> set (keys C1) \<union> N" and n: "N \<inter> set (keys D) = {}"
  shows "fits D C C3"
proof -
  have x: "set (keys C1) \<inter> (set (keys D) - set (keys C)) = {}"
    and y: "distinct (keys D)" "C \<in> set (all_nodes D)" "key_of C1 = key_of C"
    using f by (simp_all add: fits_def)
  have "set (keys C3) \<inter> (set (keys D) - set (keys C)) = {}"
    using x s n by blast
  then show ?thesis using y k d by (simp add: fits_def)
qed

lemma update_node_const_in:
  assumes d: "distinct (keys C')" and P: "P \<in> set (all_nodes C')"
  shows "update_node (key_of P) g C' = update_node (key_of P) (\<lambda>_. g P) C'"
  by (rule update_node_const[OF d P])

lemma wrap_in_subst:
  assumes f: "fits D C C'" and P: "Elem tp kp dp ps \<in> set (all_nodes C')" and x: "x \<in> set ps"
  shows "wrapBlockByKey (key_of x) ty dd (ch\<lparr>document := subst D C C'\<rparr>)
       = Inr (ch\<lparr>document :=
                subst D C (update_node kp
                  (\<lambda>_. Elem tp kp dp (map (wrap_child (key_of x) ty (next_key ch) dd) ps)) C'),
               next_key := Suc (next_key ch)\<rparr>)"
proof -
  have p1: "getParent (key_of x) (subst D C C') = Some (Elem tp kp dp ps)"
    using getParent_in_subst[OF f P, of x] x by simp
  have kp: "kp \<in> set (keys C')" using key_in_keys[OF P] by simp
  have "update_node kp (map_children (map (wrap_child (key_of x) ty (next_key ch) dd))) (subst D C C')
      = subst D C (update_node kp (map_children (map (wrap_child (key_of x) ty (next_key ch) dd))) C')"
    by (rule update_node_in_subst[OF f kp])
  also have "update_node kp (map_children (map (wrap_child (key_of x) ty (next_key ch) dd))) C'
      = update_node kp (\<lambda>_. Elem tp kp dp (map (wrap_child (key_of x) ty (next_key ch) dd) ps)) C'"
    using update_node_const[OF fits_distinct[OF f] P,
        of "map_children (map (wrap_child (key_of x) ty (next_key ch) dd))"] by simp
  finally show ?thesis by (simp add: wrapBlockByKey_def p1)
qed

lemma set_in_subst:
  assumes f: "fits D C C'" and x: "x \<in> set (all_nodes C')" and sp: "set_props ty dt x = Inr x'"
  shows "setNodeByKey (key_of x) ty dt (ch\<lparr>document := subst D C C'\<rparr>)
       = Inr (ch\<lparr>document := subst D C (update_node (key_of x) (\<lambda>_. x') C')\<rparr>)"
proof -
  have g: "getNode (key_of x) (subst D C C') = Some x" by (rule getNode_in_subst[OF f x])
  have kx: "key_of x \<in> set (keys C')" by (rule key_in_keys[OF x])
  show ?thesis
    by (simp add: setNodeByKey_def g sp update_node_in_subst[OF f kx])
qed

lemma insert_in_subst:
  assumes f: "fits D C C'" and P: "Elem tp kp dp ps \<in> set (all_nodes C')"
  shows "insertNodeByKey kp i new (ch\<lparr>document := subst D C C'\<rparr>)
       = Inr (ch\<lparr>document :=
                subst D C (update_node kp (\<lambda>_. Elem tp kp dp (insert_at i new ps)) C')\<rparr>)"
proof -
  have g: "getNode kp (subst D C C') = Some (Elem tp kp dp ps)"
    using getNode_in_subst[OF f P] by simp
  have kp: "kp \<in> set (keys C')" using key_in_keys[OF P] by simp
  have "update_node kp (map_children (insert_at i new)) (subst D C C')
      = subst D C (update_node kp (map_children (insert_at i new)) C')"
    by (rule update_node_in_subst[OF f kp])
  also have "update_node kp (map_children (insert_at i new)) C'
      = update_node kp (\<lambda>_. Elem tp kp dp (insert_at i new ps)) C'"
    using update_node_const[OF fits_distinct[OF f] P, of "map_children (insert_at i new)"] by simp
  finally show ?thesis by (simp add: insertNodeByKey_def g)
qed

lemma update_row_focus:
  assumes d: "distinct (keys (Elem t k d (rpre @ Elem tr kr dr rs # rsuf)))"
  shows "update_node kr (\<lambda>_. R') (Elem t k d (rpre @ Elem tr kr dr rs # rsuf))
       = Elem t k d (rpre @ R' # rsuf)"
  using update_node_focus[OF d, of kr "\<lambda>_. R'"] by simp

lemma update_child_focus:
  assumes d: "distinct (keys (Elem t k d (rpre @ Elem tr kr dr (xacc @ x # xrest) # rsuf)))"
  shows "update_node (key_of x) (\<lambda>_. x') (Elem t k d (rpre @ Elem tr kr dr (xacc @ x # xrest) # rsuf))
       = Elem t k d (rpre @ Elem tr kr dr (xacc @ x' # xrest) # rsuf)"
proof -
  let ?R = "Elem tr kr dr (xacc @ x # xrest)"
  have kx: "key_of x \<in> set (keys ?R)" using key_of_in_keys[of x] by simp
  have dR: "distinct (keys ?R)" by (rule distinct_keys_sub[OF d]) simp
  have "update_node (key_of x) (\<lambda>_. x') (Elem t k d (rpre @ ?R # rsuf))
      = Elem t k d (rpre @ update_node (key_of x) (\<lambda>_. x') ?R # rsuf)"
    by (rule update_node_focus[OF d kx])
  also have "update_node (key_of x) (\<lambda>_. x') ?R
      = Elem tr kr dr (xacc @ update_node (key_of x) (\<lambda>_. x') x # xrest)"
    by (rule update_node_focus[OF dR key_of_in_keys])
  finally show ?thesis by (simp add: update_node_root)
qed

lemma wrap_child_focus:
  assumes "distinct (map key_of (xacc @ x # xrest))"
  shows "map (wrap_child (key_of x) ty n dd) (xacc @ x # xrest)
       = xacc @ Elem (Block ty) n dd [x] # xrest"
proof -
  have n1: "key_of x \<notin> key_of ` set xacc" and n2: "key_of x \<notin> key_of ` set xrest"
    using assms by auto
  have a: "key_of p \<noteq> key_of x" if "p \<in> set xacc" for p
    using that n1 by (metis image_eqI)
  have b: "key_of p \<noteq> key_of x" if "p \<in> set xrest" for p
    using that n2 by (metis image_eqI)
  have "map (wrap_child (key_of x) ty n dd) xacc = xacc"
    using a by (intro map_idI) (simp add: wrap_child_def)
  moreover have "map (wrap_child (key_of x) ty n dd) xrest = xrest"
    using b by (intro map_idI) (simp add: wrap_child_def)
  ultimately show ?thesis by (simp add: wrap_child_def)
qed

lemma below_mono: "below x n \<Longrightarrow> n \<le> m \<Longrightarrow> below x m"
  by (auto simp: below_def)

lemma below_notin: "below x n \<Longrightarrow> n \<notin> set (keys x)"
  by (auto simp: below_def)

lemma keys_retype [simp]: "keys (retype opts x) = keys x"
  by (cases "(opts, x)" rule: retype.cases) simp_all

lemma key_of_retype [simp]: "key_of (retype opts x) = key_of x"
  by (cases "(opts, x)" rule: retype.cases) simp_all

lemma upd1: "(ch\<lparr>next_key := n\<rparr>)\<lparr>document := X\<rparr> = ch\<lparr>document := X, next_key := n\<rparr>"
  by (cases ch) simp

lemma upd2: "(ch\<lparr>next_key := n\<rparr>)\<lparr>document := X, next_key := m\<rparr> = ch\<lparr>document := X, next_key := m\<rparr>"
  by (cases ch) simp

lemma upd3: "ch\<lparr>document := X, next_key := n, next_key := m\<rparr> = ch\<lparr>document := X, next_key := m\<rparr>"
  by (cases ch) simp

lemma nk: "next_key (ch\<lparr>next_key := n\<rparr>) = n"
  by simp

lemma convert_step:
  assumes f: "fits D C (Elem t k d (rpre @ Elem tr kr dr (xacc @ x # xrest) # rsuf))"
    and bD: "below D n"
    and bT: "below (Elem t k d (rpre @ Elem tr kr dr (xacc @ x # xrest) # rsuf)) n"
  shows "convert_invalid opts x
           (ch\<lparr>document := subst D C (Elem t k d (rpre @ Elem tr kr dr (xacc @ x # xrest) # rsuf)),
               next_key := n\<rparr>)
         = Inr (ch\<lparr>document :=
                  subst D C (Elem t k d (rpre @ Elem tr kr dr
                     (xacc @ (if isBlock x then retype opts x
                              else Elem (Block (typeCell opts)) n [] [x]) # xrest) # rsuf)),
                 next_key := (if isBlock x then n else Suc n)\<rparr>)
       \<and> fits D C (Elem t k d (rpre @ Elem tr kr dr
                     (xacc @ (if isBlock x then retype opts x
                              else Elem (Block (typeCell opts)) n [] [x]) # xrest) # rsuf))
       \<and> below (Elem t k d (rpre @ Elem tr kr dr
                     (xacc @ (if isBlock x then retype opts x
                              else Elem (Block (typeCell opts)) n [] [x]) # xrest) # rsuf))
            (if isBlock x then n else Suc n)"
proof (cases "isBlock x")
  case True
  let ?T1 = "Elem t k d (rpre @ Elem tr kr dr (xacc @ x # xrest) # rsuf)"
  let ?T2 = "Elem t k d (rpre @ Elem tr kr dr (xacc @ retype opts x # xrest) # rsuf)"
  obtain b kx dx xs where x: "x = Elem (Block b) kx dx xs"
    using True block_shape[of x] by (auto simp: isBlock_def)
  have dT: "distinct (keys ?T1)" by (rule fits_distinct[OF f])
  have xin: "x \<in> set (all_nodes ?T1)" by simp
  have sp: "set_props (Some (typeCell opts)) None x = Inr (retype opts x)" by (simp add: x)
  have "setNodeByKey (key_of x) (Some (typeCell opts)) None
          ((ch\<lparr>next_key := n\<rparr>)\<lparr>document := subst D C ?T1\<rparr>)
      = Inr ((ch\<lparr>next_key := n\<rparr>)\<lparr>document :=
               subst D C (update_node (key_of x) (\<lambda>_. retype opts x) ?T1)\<rparr>)"
    by (rule set_in_subst[OF f xin sp])
  then have "setNodeByKey (key_of x) (Some (typeCell opts)) None
          (ch\<lparr>document := subst D C ?T1, next_key := n\<rparr>)
      = Inr (ch\<lparr>document := subst D C ?T2, next_key := n\<rparr>)"
    by (simp only: update_child_focus[OF dT] upd1)
  then have a: "convert_invalid opts x (ch\<lparr>document := subst D C ?T1, next_key := n\<rparr>)
      = Inr (ch\<lparr>document := subst D C ?T2, next_key := n\<rparr>)"
    using True by (simp only: convert_invalid_def if_False not_True_eq_False)
  have d2: "distinct (keys ?T2)" using dT by simp
  have b: "fits D C ?T2" by (rule fits_mono[OF f _ d2]) simp_all
  have c: "below ?T2 n" using bT by (simp add: below_def)
  show ?thesis using True a b c by simp
next
  case False
  let ?R1 = "Elem tr kr dr (xacc @ x # xrest)"
  let ?T1 = "Elem t k d (rpre @ ?R1 # rsuf)"
  let ?w = "Elem (Block (typeCell opts)) n [] [x]"
  let ?T2 = "Elem t k d (rpre @ Elem tr kr dr (xacc @ ?w # xrest) # rsuf)"
  have dT: "distinct (keys ?T1)" by (rule fits_distinct[OF f])
  have dR: "distinct (keys ?R1)" by (rule distinct_keys_sub[OF dT]) simp
  then have "distinct (concat (map keys (xacc @ x # xrest)))" by simp
  then have dk: "distinct (map key_of (xacc @ x # xrest))" by (rule distinct_child_keys)
  have Rin: "?R1 \<in> set (all_nodes ?T1)" by simp
  have "wrapBlockByKey (key_of x) (typeCell opts) []
          ((ch\<lparr>next_key := n\<rparr>)\<lparr>document := subst D C ?T1\<rparr>)
      = Inr ((ch\<lparr>next_key := n\<rparr>)\<lparr>document :=
               subst D C (update_node kr
                 (\<lambda>_. Elem tr kr dr (map (wrap_child (key_of x) (typeCell opts)
                         (next_key (ch\<lparr>next_key := n\<rparr>)) []) (xacc @ x # xrest))) ?T1),
             next_key := Suc (next_key (ch\<lparr>next_key := n\<rparr>))\<rparr>)"
    by (rule wrap_in_subst[OF f Rin]) simp
  then have "wrapBlockByKey (key_of x) (typeCell opts) []
          (ch\<lparr>document := subst D C ?T1, next_key := n\<rparr>)
      = Inr (ch\<lparr>document := subst D C ?T2, next_key := Suc n\<rparr>)"
    by (simp only: nk wrap_child_focus[OF dk] update_row_focus[OF dT] upd1 upd2 upd3)
  then have a: "convert_invalid opts x (ch\<lparr>document := subst D C ?T1, next_key := n\<rparr>)
      = Inr (ch\<lparr>document := subst D C ?T2, next_key := Suc n\<rparr>)"
    using False by (simp only: convert_invalid_def if_True simp_thms)
  have nn: "n \<notin> set (keys ?T1)" by (rule below_notin[OF bT])
  have d2: "distinct (keys ?T2)" using dT nn by simp
  have nD: "{n} \<inter> set (keys D) = {}" using below_notin[OF bD] by simp
  have b: "fits D C ?T2"
    by (rule fits_extend[OF f _ d2 _ nD]) auto
  have c: "below ?T2 (Suc n)" using bT by (auto simp: below_def less_Suc_eq)
  show ?thesis using False a b c by simp
qed

lemma wraps_Cons:
  "wraps opts (c # cs) = (if \<not> isCell opts c \<and> \<not> isBlock c then Suc (wraps opts cs) else wraps opts cs)"
  by (simp add: wraps_def)

lemma convert_loop:
  assumes f: "fits D C (Elem t k d (rpre @ Elem tr kr dr (xacc @ xrest) # rsuf))"
    and bD: "below D n"
    and bT: "below (Elem t k d (rpre @ Elem tr kr dr (xacc @ xrest) # rsuf)) n"
  shows "forEach (convert_invalid opts) (filter (\<lambda>c. \<not> isCell opts c) xrest)
           (ch\<lparr>document := subst D C (Elem t k d (rpre @ Elem tr kr dr (xacc @ xrest) # rsuf)),
               next_key := n\<rparr>)
         = Inr (ch\<lparr>document :=
                  subst D C (Elem t k d (rpre @ Elem tr kr dr (xacc @ converted opts n xrest) # rsuf)),
                 next_key := n + wraps opts xrest\<rparr>)
       \<and> fits D C (Elem t k d (rpre @ Elem tr kr dr (xacc @ converted opts n xrest) # rsuf))
       \<and> below (Elem t k d (rpre @ Elem tr kr dr (xacc @ converted opts n xrest) # rsuf))
            (n + wraps opts xrest)"
  using assms
proof (induction xrest arbitrary: xacc n)
  case Nil
  then show ?case by (simp add: wraps_def)
next
  case (Cons c rest)
  show ?case
  proof (cases "isCell opts c")
    case True
    have f1: "fits D C (Elem t k d (rpre @ Elem tr kr dr ((xacc @ [c]) @ rest) # rsuf))"
      using Cons.prems(1) by simp
    have b1: "below (Elem t k d (rpre @ Elem tr kr dr ((xacc @ [c]) @ rest) # rsuf)) n"
      using Cons.prems(3) by simp
    from Cons.IH[OF f1 Cons.prems(2) b1] show ?thesis
      using True by (simp add: wraps_Cons)
  next
    case False
    let ?x = "if isBlock c then retype opts c else Elem (Block (typeCell opts)) n [] [c]"
    let ?n = "if isBlock c then n else Suc n"
    note st = convert_step[OF Cons.prems, of opts ch]
    have f1: "fits D C (Elem t k d (rpre @ Elem tr kr dr ((xacc @ [?x]) @ rest) # rsuf))"
      using st by simp
    have b1: "below (Elem t k d (rpre @ Elem tr kr dr ((xacc @ [?x]) @ rest) # rsuf)) ?n"
      using st by simp
    have bD1: "below D ?n" using below_mono[OF Cons.prems(2), of ?n] by simp
    note ih = Cons.IH[OF f1 bD1 b1]
    have cv: "converted opts n (c # rest) = ?x # converted opts ?n rest"
      using False by simp
    have w: "n + wraps opts (c # rest) = ?n + wraps opts rest"
      using False by (simp add: wraps_Cons)
    have fl: "filter (\<lambda>c. \<not> isCell opts c) (c # rest) = c # filter (\<lambda>c. \<not> isCell opts c) rest"
      using False by simp
    have run: "forEach (convert_invalid opts) (filter (\<lambda>c. \<not> isCell opts c) (c # rest))
           (ch\<lparr>document := subst D C (Elem t k d (rpre @ Elem tr kr dr (xacc @ c # rest) # rsuf)),
               next_key := n\<rparr>)
         = Inr (ch\<lparr>document :=
                  subst D C (Elem t k d (rpre @ Elem tr kr dr ((xacc @ [?x]) @ converted opts ?n rest) # rsuf)),
                 next_key := ?n + wraps opts rest\<rparr>)"
      unfolding fl using st ih by simp
    show ?thesis
      unfolding cv w using run ih by simp
  qed
qed

lemma forEach_append:
  "forEach f (xs @ ys) ch = (case forEach f xs ch of Inl e \<Rightarrow> Inl e | Inr ch' \<Rightarrow> forEach f ys ch')"
  by (induction xs arbitrary: ch) (simp_all split: sum.splits)

lemma insert_at_length: "length A = i \<Longrightarrow> insert_at i x (A @ B) = A @ x # B"
  by (simp add: insert_at_def)

lemma new_cells_Suc:
  "new_cells opts n (Suc a) = new_cells opts n a @ [makeEmptyCell opts (n + 2 * a)]"
  by (simp add: new_cells_def)

lemma length_new_cells [simp]: "length (new_cells opts n a) = a"
  by (simp add: new_cells_def)

lemma keys_makeEmptyCell: "keys (makeEmptyCell opts q) = [Suc q, q]"
  by (simp add: makeEmptyCell_def)

lemma distinct_insert_child:
  assumes "distinct (keys (Elem t k d (rpre @ Elem tr kr dr (A @ B) # rsuf)))"
    and "distinct (keys x)"
    and "set (keys x) \<inter> set (keys (Elem t k d (rpre @ Elem tr kr dr (A @ B) # rsuf))) = {}"
  shows "distinct (keys (Elem t k d (rpre @ Elem tr kr dr (A @ x # B) # rsuf)))"
  using assms by auto

lemma keys_insert_child:
  "set (keys (Elem t k d (rpre @ Elem tr kr dr (A @ x # B) # rsuf)))
     = set (keys (Elem t k d (rpre @ Elem tr kr dr (A @ B) # rsuf))) \<union> set (keys x)"
  by auto

lemma below_notin_ge: "below x n \<Longrightarrow> n \<le> j \<Longrightarrow> j \<notin> set (keys x)"
  by (auto simp: below_def)

lemma below_extend:
  assumes "below T1 q" and "set (keys T2) \<subseteq> set (keys T1) \<union> N" and "\<forall>j \<in> N. j < q'" and "q \<le> q'"
  shows "below T2 q'"
  unfolding below_def
proof
  fix j assume "j \<in> set (keys T2)"
  then have "j \<in> set (keys T1) \<or> j \<in> N" using assms(2) by blast
  then show "j < q'"
  proof
    assume "j \<in> set (keys T1)"
    then have "j < q" using assms(1) by (simp add: below_def)
    then show ?thesis using assms(4) by simp
  next
    assume "j \<in> N" then show ?thesis using assms(3) by blast
  qed
qed

lemma insert_step:
  assumes f: "fits D C (Elem t k d (rpre @ Elem tr kr dr (A @ B) # rsuf))"
    and bD: "below D q"
    and bT: "below (Elem t k d (rpre @ Elem tr kr dr (A @ B) # rsuf)) q"
    and len: "length A = m + j"
  shows "insert_cell opts kr m j
           (ch\<lparr>document := subst D C (Elem t k d (rpre @ Elem tr kr dr (A @ B) # rsuf)),
               next_key := q\<rparr>)
         = Inr (ch\<lparr>document :=
                  subst D C (Elem t k d (rpre @ Elem tr kr dr (A @ makeEmptyCell opts q # B) # rsuf)),
                 next_key := q + 2\<rparr>)
       \<and> fits D C (Elem t k d (rpre @ Elem tr kr dr (A @ makeEmptyCell opts q # B) # rsuf))
       \<and> below (Elem t k d (rpre @ Elem tr kr dr (A @ makeEmptyCell opts q # B) # rsuf)) (q + 2)"
proof -
  let ?R1 = "Elem tr kr dr (A @ B)"
  let ?T1 = "Elem t k d (rpre @ ?R1 # rsuf)"
  let ?cell = "makeEmptyCell opts q"
  let ?T2 = "Elem t k d (rpre @ Elem tr kr dr (A @ ?cell # B) # rsuf)"
  have dT: "distinct (keys ?T1)" by (rule fits_distinct[OF f])
  have Rin: "?R1 \<in> set (all_nodes ?T1)" by simp
  have "insertNodeByKey kr (m + j) ?cell
          ((ch\<lparr>next_key := q + 2\<rparr>)\<lparr>document := subst D C ?T1\<rparr>)
      = Inr ((ch\<lparr>next_key := q + 2\<rparr>)\<lparr>document :=
               subst D C (update_node kr (\<lambda>_. Elem tr kr dr (insert_at (m + j) ?cell (A @ B))) ?T1)\<rparr>)"
    by (rule insert_in_subst[OF f Rin])
  then have "insertNodeByKey kr (m + j) ?cell
          (ch\<lparr>document := subst D C ?T1, next_key := q + 2\<rparr>)
      = Inr (ch\<lparr>document := subst D C ?T2, next_key := q + 2\<rparr>)"
    by (simp only: insert_at_length[OF len] update_row_focus[OF dT] upd1)
  then have a: "insert_cell opts kr m j (ch\<lparr>document := subst D C ?T1, next_key := q\<rparr>)
      = Inr (ch\<lparr>document := subst D C ?T2, next_key := q + 2\<rparr>)"
    by (simp add: insert_cell_def Let_def)
  have nq: "q \<notin> set (keys ?T1)" "Suc q \<notin> set (keys ?T1)"
    using below_notin_ge[OF bT, of q] below_notin_ge[OF bT, of "Suc q"] by simp_all
  have dis: "set (keys ?cell) \<inter> set (keys ?T1) = {}"
    using nq by (simp add: keys_makeEmptyCell)
  have d2: "distinct (keys ?T2)"
    by (rule distinct_insert_child[OF dT _ dis]) (simp add: keys_makeEmptyCell)
  have nD: "{q, Suc q} \<inter> set (keys D) = {}"
    using below_notin_ge[OF bD, of q] below_notin_ge[OF bD, of "Suc q"] by simp
  have sub: "set (keys ?T2) \<subseteq> set (keys ?T1) \<union> {q, Suc q}"
    unfolding keys_insert_child by (auto simp: keys_makeEmptyCell)
  have b: "fits D C ?T2"
    by (rule fits_extend[OF f _ d2 sub nD]) simp
  have c: "below ?T2 (q + 2)"
    by (rule below_extend[OF bT sub]) simp_all
  show ?thesis using a b c by simp
qed

lemma insert_loop:
  assumes f: "fits D C (Elem t k d (rpre @ Elem tr kr dr ys # rsuf))"
    and bD: "below D n"
    and bT: "below (Elem t k d (rpre @ Elem tr kr dr ys # rsuf)) n"
    and m: "m \<le> length ys"
  shows "forEach (insert_cell opts kr m) [0..<a]
           (ch\<lparr>document := subst D C (Elem t k d (rpre @ Elem tr kr dr ys # rsuf)),
               next_key := n\<rparr>)
         = Inr (ch\<lparr>document :=
                  subst D C (Elem t k d (rpre @ Elem tr kr dr
                     (take m ys @ new_cells opts n a @ drop m ys) # rsuf)),
                 next_key := n + 2 * a\<rparr>)
       \<and> fits D C (Elem t k d (rpre @ Elem tr kr dr
                     (take m ys @ new_cells opts n a @ drop m ys) # rsuf))
       \<and> below (Elem t k d (rpre @ Elem tr kr dr
                     (take m ys @ new_cells opts n a @ drop m ys) # rsuf)) (n + 2 * a)"
proof (induction a)
  case 0
  show ?case using f bT by (simp add: new_cells_def)
next
  case (Suc a)
  let ?A = "take m ys @ new_cells opts n a"
  let ?B = "drop m ys"
  have f1: "fits D C (Elem t k d (rpre @ Elem tr kr dr (?A @ ?B) # rsuf))"
    and b1: "below (Elem t k d (rpre @ Elem tr kr dr (?A @ ?B) # rsuf)) (n + 2 * a)"
    and r1: "forEach (insert_cell opts kr m) [0..<a]
           (ch\<lparr>document := subst D C (Elem t k d (rpre @ Elem tr kr dr ys # rsuf)),
               next_key := n\<rparr>)
         = Inr (ch\<lparr>document :=
                  subst D C (Elem t k d (rpre @ Elem tr kr dr (?A @ ?B) # rsuf)),
                 next_key := n + 2 * a\<rparr>)"
    using Suc.IH by simp_all
  have bD1: "below D (n + 2 * a)" using below_mono[OF bD] by simp
  have len: "length ?A = m + a" using m by simp
  note st = insert_step[OF f1 bD1 b1 len, of opts ch]
  have nc: "take m ys @ new_cells opts n (Suc a) @ drop m ys
      = ?A @ makeEmptyCell opts (n + 2 * a) # ?B"
    by (simp add: new_cells_Suc)
  have "forEach (insert_cell opts kr m) [0..<Suc a]
           (ch\<lparr>document := subst D C (Elem t k d (rpre @ Elem tr kr dr ys # rsuf)),
               next_key := n\<rparr>)
      = Inr (ch\<lparr>document :=
                  subst D C (Elem t k d (rpre @ Elem tr kr dr
                     (?A @ makeEmptyCell opts (n + 2 * a) # ?B) # rsuf)),
                 next_key := n + 2 * a + 2\<rparr>)"
    using r1 st by (simp add: forEach_append)
  then show ?case
    unfolding nc using st by simp
qed

lemma length_converted [simp]: "length (converted opts n cs) = length cs"
  by (induction cs arbitrary: n) simp_all

lemma RangeSeq_length: "m \<le> a \<Longrightarrow> length (RangeSeq m a) = a - m"
  by (simp add: RangeSeq_def)

lemma fix_row_at:
  assumes f: "fits D C (Elem t k d (rpre @ Elem tr kr dr rs # rsuf))"
    and bD: "below D n"
    and bT: "below (Elem t k d (rpre @ Elem tr kr dr rs # rsuf)) n"
  shows "fix_row opts \<lparr>ri_row = Elem tr kr dr rs,
                       ri_invalids = filter (\<lambda>c. \<not> isCell opts c) rs,
                       ri_add = cols - countCells opts (Elem tr kr dr rs)\<rparr>
           (ch\<lparr>document := subst D C (Elem t k d (rpre @ Elem tr kr dr rs # rsuf)),
               next_key := n\<rparr>)
         = Inr (ch\<lparr>document :=
                  subst D C (Elem t k d (rpre @ fixed_row opts cols n (Elem tr kr dr rs) # rsuf)),
                 next_key := n + keys_used opts cols (Elem tr kr dr rs)\<rparr>)
       \<and> fits D C (Elem t k d (rpre @ fixed_row opts cols n (Elem tr kr dr rs) # rsuf))
       \<and> below (Elem t k d (rpre @ fixed_row opts cols n (Elem tr kr dr rs) # rsuf))
            (n + keys_used opts cols (Elem tr kr dr rs))"
proof -
  let ?R = "Elem tr kr dr rs"
  let ?m = "invalid_count opts ?R"
  let ?a = "added_count opts cols ?R"
  let ?ys = "converted opts n rs"
  let ?n1 = "n + wraps opts rs"
  have f0: "fits D C (Elem t k d (rpre @ Elem tr kr dr ([] @ rs) # rsuf))"
    and b0: "below (Elem t k d (rpre @ Elem tr kr dr ([] @ rs) # rsuf)) n"
    using f bT by simp_all
  note p1 = convert_loop[OF f0 bD b0, of opts ch]
  have r1: "forEach (convert_invalid opts) (filter (\<lambda>c. \<not> isCell opts c) rs)
           (ch\<lparr>document := subst D C (Elem t k d (rpre @ ?R # rsuf)), next_key := n\<rparr>)
         = Inr (ch\<lparr>document := subst D C (Elem t k d (rpre @ Elem tr kr dr ?ys # rsuf)),
                 next_key := ?n1\<rparr>)"
    and f1: "fits D C (Elem t k d (rpre @ Elem tr kr dr ?ys # rsuf))"
    and b1: "below (Elem t k d (rpre @ Elem tr kr dr ?ys # rsuf)) ?n1"
    using p1 by simp_all
  have bD1: "below D ?n1" using below_mono[OF bD] by simp
  have mle: "?m \<le> length ?ys" by (simp add: invalid_count_def)
  note p2 = insert_loop[OF f1 bD1 b1 mle, of opts ?a ch]
  have rl: "length (RangeSeq (length (filter (\<lambda>c. \<not> isCell opts c) rs))
               (cols - countCells opts ?R)) = ?a"
    by (simp add: added_count_def invalid_count_def missing_count_def)
  have ku: "?n1 + 2 * ?a = n + keys_used opts cols ?R"
    by (simp add: keys_used_def)
  have run: "fix_row opts \<lparr>ri_row = ?R, ri_invalids = filter (\<lambda>c. \<not> isCell opts c) rs,
                       ri_add = cols - countCells opts ?R\<rparr>
           (ch\<lparr>document := subst D C (Elem t k d (rpre @ ?R # rsuf)), next_key := n\<rparr>)
      = forEach (insert_cell opts kr ?m) [0..<?a]
          (ch\<lparr>document := subst D C (Elem t k d (rpre @ Elem tr kr dr ?ys # rsuf)),
              next_key := ?n1\<rparr>)"
    using r1 by (simp add: fix_row_def and_then_def rl) (simp add: invalid_count_def)
  show ?thesis
    unfolding run using p2 by (simp add: ku)
qed

lemma row_shape: "isRow opts c \<Longrightarrow> \<exists>tr kr dr rs. c = Elem tr kr dr rs"
  by (cases c) (auto simp: isRow_def)

lemma check_row_Some:
  "check_row opts cols (Elem tr kr dr rs) \<noteq> None \<Longrightarrow>
   check_row opts cols (Elem tr kr dr rs)
     = Some \<lparr>ri_row = Elem tr kr dr rs,
             ri_invalids = filter (\<lambda>c. \<not> isCell opts c) rs,
             ri_add = cols - countCells opts (Elem tr kr dr rs)\<rparr>"
  by (simp add: check_row_def Let_def split: if_splits)

lemma map_filter_Cons:
  "List.map_filter f (x # xs)
     = (case f x of None \<Rightarrow> List.map_filter f xs | Some y \<Rightarrow> y # List.map_filter f xs)"
  by (simp add: List.map_filter_def split: option.splits)

lemma fix_rows_loop:
  assumes f: "fits D C (Elem t k d (acc @ rest))"
    and bD: "below D n"
    and bT: "below (Elem t k d (acc @ rest)) n"
  shows "forEach (fix_row opts) (List.map_filter (check_row opts cols) (filter (isRow opts) rest))
           (ch\<lparr>document := subst D C (Elem t k d (acc @ rest)), next_key := n\<rparr>)
         = Inr (ch\<lparr>document := subst D C (Elem t k d (acc @ fixed_rows opts cols n rest)),
                 next_key := n + keys_used_all opts cols rest\<rparr>)"
  using assms
proof (induction rest arbitrary: acc n)
  case Nil
  then show ?case by (simp add: List.map_filter_def)
next
  case (Cons c rest)
  show ?case
  proof (cases "isRow opts c \<and> check_row opts cols c \<noteq> None")
    case False
    have f1: "fits D C (Elem t k d ((acc @ [c]) @ rest))"
      and b1: "below (Elem t k d ((acc @ [c]) @ rest)) n"
      using Cons.prems(1,3) by simp_all
    have mf: "List.map_filter (check_row opts cols) (filter (isRow opts) (c # rest))
        = List.map_filter (check_row opts cols) (filter (isRow opts) rest)"
      using False by (auto simp: map_filter_Cons)
    have fr: "fixed_rows opts cols n (c # rest) = c # fixed_rows opts cols n rest"
      using False by (simp only: fixed_rows.simps if_False)
    have ka: "keys_used_all opts cols (c # rest) = keys_used_all opts cols rest"
      using False by (simp only: keys_used_all.simps if_False)
    from Cons.IH[OF f1 Cons.prems(2) b1] show ?thesis
      unfolding mf fr ka by simp
  next
    case True
    then obtain tr kr dr rs where c: "c = Elem tr kr dr rs" using row_shape by blast
    let ?issue = "\<lparr>ri_row = Elem tr kr dr rs,
             ri_invalids = filter (\<lambda>c. \<not> isCell opts c) rs,
             ri_add = cols - countCells opts (Elem tr kr dr rs)\<rparr>"
    have cr: "check_row opts cols c = Some ?issue"
      using True check_row_Some[of opts cols tr kr dr rs] c by simp
    have mf: "List.map_filter (check_row opts cols) (filter (isRow opts) (c # rest))
        = ?issue # List.map_filter (check_row opts cols) (filter (isRow opts) rest)"
      using True cr by (simp add: map_filter_Cons)
    have f0: "fits D C (Elem t k d (acc @ Elem tr kr dr rs # rest))"
      and b0: "below (Elem t k d (acc @ Elem tr kr dr rs # rest)) n"
      using Cons.prems(1,3) c by simp_all
    note st = fix_row_at[OF f0 Cons.prems(2) b0, of opts cols ch]
    let ?n1 = "n + keys_used opts cols c"
    have f1: "fits D C (Elem t k d ((acc @ [fixed_row opts cols n c]) @ rest))"
      and b1: "below (Elem t k d ((acc @ [fixed_row opts cols n c]) @ rest)) ?n1"
      and r1: "fix_row opts ?issue
                 (ch\<lparr>document := subst D C (Elem t k d (acc @ c # rest)), next_key := n\<rparr>)
        = Inr (ch\<lparr>document := subst D C (Elem t k d ((acc @ [fixed_row opts cols n c]) @ rest)),
                next_key := ?n1\<rparr>)"
      using st c by simp_all
    have bD1: "below D ?n1" using below_mono[OF Cons.prems(2)] by simp
    note ih = Cons.IH[OF f1 bD1 b1]
    have fr: "fixed_rows opts cols n (c # rest)
        = fixed_row opts cols n c # fixed_rows opts cols ?n1 rest"
      using True by simp
    have ka: "n + keys_used_all opts cols (c # rest) = ?n1 + keys_used_all opts cols rest"
      using True by simp
    show ?thesis
      unfolding mf fr ka using r1 ih by simp
  qed
qed

lemma countCells_le_columns:
  "r \<in> set rows \<Longrightarrow> countCells opts r \<le> table_columns opts rows"
  unfolding table_columns_Max by (rule Max_ge) auto

lemma isCell_retype: "isBlock c \<Longrightarrow> isCell opts (retype opts c)"
  by (cases c rule: kind_of.cases) (simp_all add: isBlock_def isCell_def)

lemma isCell_wrapper: "isCell opts (Elem (Block (typeCell opts)) n dd xs)"
  by (simp add: isCell_def)

lemma converted_all_cells: "\<forall>c \<in> set (converted opts n cs). isCell opts c"
proof (induction cs arbitrary: n)
  case Nil then show ?case by simp
next
  case (Cons a cs)
  show ?case
  proof (cases "isCell opts a")
    case True then show ?thesis using Cons[of n] by simp
  next
    case False
    show ?thesis
    proof (cases "isBlock a")
      case True then show ?thesis using False Cons[of n] isCell_retype[of a opts] by simp
    next
      case nb: False
      then show ?thesis using False Cons[of "Suc n"] isCell_wrapper[of opts n "[]" "[a]"] by simp
    qed
  qed
qed

lemma converted_cells: "c \<in> set (converted opts n cs) \<Longrightarrow> isCell opts c"
  using converted_all_cells by blast

lemma new_cells_cells: "c \<in> set (new_cells opts n a) \<Longrightarrow> isCell opts c"
  by (auto simp: new_cells_def makeEmptyCell_def isCell_def)

lemma length_cells_invalids:
  "countCells opts (Elem tr kr dr rs) + invalid_count opts (Elem tr kr dr rs) = length rs"
  by (simp add: countCells_def invalid_count_def sum_length_filter_compl)

lemma fixed_row_cells:
  assumes c: "c \<in> set (children (fixed_row opts cols m (Elem tr kr dr rs)))"
  shows "isCell opts c"
proof -
  have "c \<in> set (converted opts m rs) \<or> c \<in> set (new_cells opts (m + wraps opts rs)
            (added_count opts cols (Elem tr kr dr rs)))"
    using c by (auto dest: in_set_takeD in_set_dropD)
  then show ?thesis using converted_cells new_cells_cells by blast
qed

lemma fixed_row_width:
  assumes w: "countCells opts (Elem tr kr dr rs) \<le> cols"
    and le: "invalid_count opts (Elem tr kr dr rs) \<le> missing_count opts cols (Elem tr kr dr rs)"
  shows "countCells opts (fixed_row opts cols m (Elem tr kr dr rs)) = cols"
proof -
  let ?R = "Elem tr kr dr rs"
  let ?F = "fixed_row opts cols m ?R"
  have "\<forall>c \<in> set (children ?F). isCell opts c"
    using fixed_row_cells by blast
  then have all: "filter (isCell opts) (children ?F) = children ?F"
    by (rule filter_True)
  have ac: "added_count opts cols ?R = missing_count opts cols ?R - invalid_count opts ?R"
    unfolding added_count_def by (rule RangeSeq_length[OF le])
  have "length (children ?F) = length rs + added_count opts cols ?R"
    by (simp add: length_new_cells min_def)
  also have "\<dots> = countCells opts ?R + missing_count opts cols ?R"
    using le ac length_cells_invalids[of opts tr kr dr rs] by simp
  also have "\<dots> = cols" using w by (simp add: missing_count_def)
  finally show ?thesis unfolding countCells_def all .
qed

lemma check_row_offending:
  "(check_row opts cols r \<noteq> None)
     = (countCells opts r \<noteq> cols \<or> (\<exists>c \<in> set (children r). \<not> isCell opts c))"
  by (auto simp: check_row_def Let_def filter_empty_conv)




end
